theory Spec2Isabelle
  imports Main "HOL-Library.Word" "HOL-Library.Signed_Division"
begin

unbundle bit_operations_syntax

section \<open>Machine integers of the source\<close>

text \<open>
  The program \<^verbatim>\<open>Miller_Rabin_karp.cpp\<close> computes on \<^verbatim>\<open>long long\<close> (64-bit two's
  complement), on \<^verbatim>\<open>__int128\<close> inside \<^verbatim>\<open>mulmod\<close>, and on \<^verbatim>\<open>int\<close> for the
  squaring count \<^verbatim>\<open>s\<close> and the loop index \<^verbatim>\<open>r\<close>. They are modelled as words of
  that width, read through \<open>sint\<close>.
\<close>

type_synonym i64 = "64 word"
type_synonym i128 = "128 word"
type_synonym i32 = "32 word"

text \<open>
  The remainder operator \<^verbatim>\<open>%\<close> of C++ on signed operands truncates towards zero
  (\<open>smod\<close> on \<open>int\<close>). The divisor 0 is undefined behaviour in C++: \<open>mulmod\<close> below
  tests for it before it takes the remainder, and the only other divisor is the
  constant 2.
\<close>

definition word_srem :: "'a::len word \<Rightarrow> 'a word \<Rightarrow> 'a word" where
  "word_srem x y = word_of_int (sint x smod sint y)"

section \<open>Modular arithmetic kernel\<close>

text \<open>
  \<^verbatim>\<open>__int128 res = (__int128)a * b;\<close> --- both operands are sign-extended to 128 bits
  and multiplied there.
\<close>

definition mulmod_res :: "i64 \<Rightarrow> i64 \<Rightarrow> i128" where
  "mulmod_res a b = (scast a :: i128) * (scast b :: i128)"

text \<open>
  \<^verbatim>\<open>return (long long)(res % mod);\<close> --- \<^verbatim>\<open>mod\<close> is sign-extended to 128 bits, the
  remainder is taken there and cast back to 64 bits. A zero modulus is a division by
  zero: the result \<open>None\<close>. The other undefined remainder of C++, the least 128-bit
  value by \<open>- 1\<close>, cannot arise: a product of two 64-bit values is at most \<open>2 ^ 126\<close> in
  absolute value (\<open>sint_mulmod_res\<close> below). The parameter \<^verbatim>\<open>mod\<close> of the source is
  written \<open>m\<close>.
\<close>

definition mulmod :: "i64 \<Rightarrow> i64 \<Rightarrow> i64 \<Rightarrow> i64 option" where
  "mulmod a b m =
     (let res = mulmod_res a b in
      if m = 0 then None
      else Some (scast (word_srem res (scast m :: i128)) :: i64))"

text \<open>
  The loop of \<^verbatim>\<open>modexp\<close> on its variables \<^verbatim>\<open>result\<close>, \<^verbatim>\<open>a\<close>, \<^verbatim>\<open>b\<close>. The last
  argument is a ghost counter of the loop bodies entered; it is returned beside the
  outcome and the program's result does not depend on it.
\<close>

function modexp_loop :: "i64 \<Rightarrow> i64 \<Rightarrow> i64 \<Rightarrow> i64 \<Rightarrow> nat \<Rightarrow> nat \<times> i64 option" where
  "modexp_loop result a b m k =
     (if 0 <s b then
        (case (if b AND 1 \<noteq> 0 then mulmod result a m else Some result) of
           None \<Rightarrow> (Suc k, None)
         | Some result' \<Rightarrow>
             (case mulmod a a m of
                None \<Rightarrow> (Suc k, None)
              | Some a' \<Rightarrow> modexp_loop result' a' (signed_drop_bit 1 b) m (Suc k)))
      else (k, Some result))"
  by pat_completeness auto
termination
proof (relation "measure (\<lambda>(result, a, b, m, k). nat (sint b))")
  show "wf (measure (\<lambda>(result, a, b, m, k). nat (sint b)))"
    by simp
next
  fix result a b m :: i64 and k :: nat and x2 x2a :: i64
  assume "0 <s b"
  then have "0 < sint b"
    by (simp add: word_sless_alt)
  moreover have "sint (signed_drop_bit 1 b) = sint b div 2"
    by (simp add: sint_signed_drop_bit_eq drop_bit_eq_div)
  ultimately show "((x2, x2a, signed_drop_bit 1 b, m, Suc k), (result, a, b, m, k))
      \<in> measure (\<lambda>(result, a, b, m, k). nat (sint b))"
    by simp
qed

declare modexp_loop.simps [simp del]

text \<open>
  \<^verbatim>\<open>modexp\<close> starts the loop with \<^verbatim>\<open>result = 1\<close> and returns its outcome;
  \<open>modexp_iterations\<close> reads the ghost counter of the same run.
\<close>

definition modexp_iterations :: "i64 \<Rightarrow> i64 \<Rightarrow> i64 \<Rightarrow> nat" where
  "modexp_iterations a b m = fst (modexp_loop 1 a b m 0)"

definition modexp :: "i64 \<Rightarrow> i64 \<Rightarrow> i64 \<Rightarrow> i64 option" where
  "modexp a b m = snd (modexp_loop 1 a b m 0)"

section \<open>Witness evaluator\<close>

text \<open>
  The \<^verbatim>\<open>for(int r = 1; r < s; r++)\<close> loop of \<^verbatim>\<open>check_composite\<close>. The last argument
  is a ghost counter of the squarings performed (the calls \<^verbatim>\<open>mulmod(x, x, n)\<close>); it is
  returned beside the verdict, which does not depend on it.
\<close>

function check_composite_loop :: "i64 \<Rightarrow> i64 \<Rightarrow> i32 \<Rightarrow> i32 \<Rightarrow> nat \<Rightarrow> nat \<times> bool option" where
  "check_composite_loop x n r s k =
     (if r <s s then
        (case mulmod x x n of
           None \<Rightarrow> (Suc k, None)
         | Some x' \<Rightarrow>
             if x' = n - 1 then (Suc k, Some False)
             else if x' = 1 then (Suc k, Some True)
             else check_composite_loop x' n (r + 1) s (Suc k))
      else (k, Some True))"
  by pat_completeness auto
termination
proof (relation "measure (\<lambda>(x, n, r, s, k). nat (sint s - sint r))")
  show "wf (measure (\<lambda>(x, n, r, s, k). nat (sint s - sint r)))"
    by simp
next
  fix x n x2 :: i64 and r s :: i32 and k :: nat
  assume "r <s s"
  then have lt: "sint r < sint s"
    by (simp add: word_sless_alt)
  have "sint s < 2 ^ 31"
    using sint_lt [of s] by simp
  with lt have up: "sint r + 1 < 2 ^ 31"
    by simp
  have lo: "- (2 ^ 31) \<le> sint r + 1"
    using sint_ge [of r] by simp
  have "sint (r + 1) = signed_take_bit 31 (sint r + 1)"
    by (simp add: sint_word_ariths)
  also have "\<dots> = sint r + 1"
    using lo up by (simp add: signed_take_bit_int_eq_self)
  finally show "((x2, n, r + 1, s, Suc k), (x, n, r, s, k))
      \<in> measure (\<lambda>(x, n, r, s, k). nat (sint s - sint r))"
    using lt by simp
qed

declare check_composite_loop.simps [simp del]

text \<open>
  \<^verbatim>\<open>n - 1\<close> is the wrapping subtraction of the word type; on every call made by
  \<^verbatim>\<open>isPrime\<close> the value of \<^verbatim>\<open>n\<close> is at least 3 and nothing wraps.
\<close>

text \<open>
  The body of \<^verbatim>\<open>check_composite\<close>, with the number of squarings its loop performed
  beside the verdict. \<open>check_composite\<close> is the verdict, the value the source returns;
  \<open>check_composite_squarings\<close> reads the ghost counter of the same run.
\<close>

definition check_composite_run :: "i64 \<Rightarrow> i64 \<Rightarrow> i64 \<Rightarrow> i32 \<Rightarrow> nat \<times> bool option" where
  "check_composite_run a d n s =
     (case modexp a d n of
        None \<Rightarrow> (0, None)
      | Some x \<Rightarrow>
          if x = 1 \<or> x = n - 1 then (0, Some False)
          else check_composite_loop x n 1 s 0)"

definition check_composite :: "i64 \<Rightarrow> i64 \<Rightarrow> i64 \<Rightarrow> i32 \<Rightarrow> bool option" where
  "check_composite a d n s = snd (check_composite_run a d n s)"

definition check_composite_squarings :: "i64 \<Rightarrow> i64 \<Rightarrow> i64 \<Rightarrow> i32 \<Rightarrow> nat" where
  "check_composite_squarings a d n s = fst (check_composite_run a d n s)"

section \<open>Primality decision\<close>

text \<open>
  The loop \<^verbatim>\<open>while((d & 1) == 0) { d >>= 1; s++; }\<close>. It does not end when \<^verbatim>\<open>d\<close>
  is 0, so the model is a partial function: not returning is the value \<open>None\<close>.
\<close>

partial_function (option) decompose :: "i64 \<Rightarrow> i32 \<Rightarrow> (i64 \<times> i32) option" where
  "decompose d s =
     (if d AND 1 = 0 then decompose (signed_drop_bit 1 d) (s + 1) else Some (d, s))"

declare decompose.simps [code]

definition test_bases :: "i64 list" where
  "test_bases = [2, 3, 5, 7, 11, 13, 17]"

text \<open>
  The range-for over \<^verbatim>\<open>test_bases\<close>, on the bases still to be tried. The last argument
  is a ghost trace: the bases on which \<^verbatim>\<open>check_composite\<close> has been called so far, in the
  order of the calls. It is returned beside the verdict, which does not depend on it.
\<close>

fun bases_loop :: "i64 list \<Rightarrow> i64 \<Rightarrow> i64 \<Rightarrow> i32 \<Rightarrow> i64 list \<Rightarrow> i64 list \<times> bool option" where
  "bases_loop [] d n s tested = (tested, Some True)"
| "bases_loop (a # as) d n s tested =
     (if n \<le>s a then bases_loop as d n s tested
      else (case check_composite a d n s of
              None \<Rightarrow> (tested @ [a], None)
            | Some w \<Rightarrow>
                if w then (tested @ [a], Some False)
                else bases_loop as d n s (tested @ [a])))"

text \<open>
  The body of \<^verbatim>\<open>isPrime\<close>, with the trace of the bases tested beside the verdict.
  \<open>isPrime\<close> is the verdict, the value the source returns; \<open>isPrime_tested\<close> reads the
  ghost trace of the same run.
\<close>

definition isPrime_run :: "i64 \<Rightarrow> i64 list \<times> bool option" where
  "isPrime_run n =
     (if n <s 2 then ([], Some False)
      else if word_srem n 2 = 0 then ([], Some (n = 2))
      else (case decompose (n - 1) 0 of
              None \<Rightarrow> ([], None)
            | Some (d, s) \<Rightarrow> bases_loop test_bases d n s []))"

definition isPrime :: "i64 \<Rightarrow> bool option" where
  "isPrime n = snd (isPrime_run n)"

definition isPrime_tested :: "i64 \<Rightarrow> i64 list" where
  "isPrime_tested n = fst (isPrime_run n)"

section \<open>Mathematical notions of the specification\<close>

text \<open>
  Primality and compositeness of a natural number, by trial division over the proper
  candidates.
\<close>

definition prime_nat :: "nat \<Rightarrow> bool" where
  "prime_nat p \<longleftrightarrow> 1 < p \<and> (\<forall>m\<in>{2..<p}. \<not> m dvd p)"

definition composite_nat :: "nat \<Rightarrow> bool" where
  "composite_nat n \<longleftrightarrow> (\<exists>m\<in>{2..<n}. m dvd n)"

text \<open>
  \<open>n\<close> is a strong probable prime to base \<open>a\<close>, for the decomposition
  \<open>n - 1 = d * 2 ^ s\<close>: the Miller--Rabin condition that the witness evaluator decides.
\<close>

definition strong_probable_prime :: "int \<Rightarrow> nat \<Rightarrow> int \<Rightarrow> nat \<Rightarrow> bool" where
  "strong_probable_prime a d n s \<longleftrightarrow>
     a ^ d mod n = 1 \<or> (\<exists>r < s. a ^ (d * 2 ^ r) mod n = n - 1)"

section \<open>Evaluation of the mathematical notions on numerals\<close>

text \<open>
  Binary exponentiation and the squaring chain on unbounded integers. They are proved
  equal to the mathematical notions below and serve to compute them on concrete numbers.
\<close>

function pow_mod_loop :: "int \<Rightarrow> int \<Rightarrow> int \<Rightarrow> int \<Rightarrow> int" where
  "pow_mod_loop r a b m =
     (if 0 < b then pow_mod_loop (if odd b then r * a mod m else r) (a * a mod m) (b div 2) m
      else r)"
  by pat_completeness auto
termination
  by (relation "measure (\<lambda>(r, a, b, m). nat b)") auto

declare pow_mod_loop.simps [simp del]

fun squarings_hit :: "int \<Rightarrow> int \<Rightarrow> nat \<Rightarrow> bool" where
  "squarings_hit x n 0 = False"
| "squarings_hit x n (Suc k) = (if x = n - 1 then True else squarings_hit (x * x mod n) n k)"

fun one_or_hit :: "int \<Rightarrow> int \<Rightarrow> nat \<Rightarrow> bool" where
  "one_or_hit x n s = (if x = 1 then True else squarings_hit x n s)"

definition spp_eval :: "int \<Rightarrow> int \<Rightarrow> int \<Rightarrow> nat \<Rightarrow> bool" where
  "spp_eval a d n s = one_or_hit (pow_mod_loop 1 a d n) n s"

fun passes_bases :: "int list \<Rightarrow> int \<Rightarrow> int \<Rightarrow> nat \<Rightarrow> bool" where
  "passes_bases [] d n s = True"
| "passes_bases (a # as) d n s =
     (if n \<le> a then passes_bases as d n s
      else if spp_eval a d n s then passes_bases as d n s else False)"

section \<open>Facts about signed 64-bit values\<close>

lemma sint64_bounds: "- (2 ^ 63) \<le> sint (w :: i64) \<and> sint w < 2 ^ 63"
  using sint_ge [of w] sint_lt [of w] by simp

lemma sint_inj: "sint (a :: 'a::len word) = sint b \<Longrightarrow> a = b"
  by (rule signed_word_eqI)

lemma sint_eq_0: "sint (w :: 'a::len word) = 0 \<longleftrightarrow> w = 0"
  by (rule signed_eq_0_iff)

lemma and_1_sint: "(b :: i64) AND 1 \<noteq> 0 \<longleftrightarrow> odd (sint b)"
proof -
  have "odd (sint b) \<longleftrightarrow> bit (sint b) 0"
    by (simp add: bit_0)
  also have "\<dots> \<longleftrightarrow> bit b 0"
    by (simp add: bit_sint_iff)
  also have "\<dots> \<longleftrightarrow> odd b"
    by (simp add: bit_0)
  also have "\<dots> \<longleftrightarrow> b AND 1 \<noteq> 0"
    by (simp add: and_one_eq even_iff_mod_2_eq_zero)
  finally show ?thesis by simp
qed

lemma sint_1_64: "sint (1 :: i64) = 1"
  by simp

lemma abs_sint64_le: "\<bar>sint (w :: i64)\<bar> \<le> 2 ^ 63"
  using sint64_bounds [of w] by (simp add: abs_le_iff)

lemma sint_scast_64_128: "sint (scast (w :: i64) :: i128) = sint w"
  by (simp add: sint_up_scast is_up)

lemma abs_prod_sint64: "\<bar>sint (a :: i64) * sint (b :: i64)\<bar> \<le> 2 ^ 126"
proof -
  have "\<bar>sint a * sint b\<bar> = \<bar>sint a\<bar> * \<bar>sint b\<bar>"
    by (simp add: abs_mult)
  also have "\<dots> \<le> 2 ^ 63 * 2 ^ 63"
    using abs_sint64_le [of a] abs_sint64_le [of b] by (intro mult_mono) simp_all
  finally show ?thesis by simp
qed

lemma sint_mulmod_res: "sint (mulmod_res a b) = sint a * sint b"
proof -
  have "sint (mulmod_res a b) = signed_take_bit 127 (sint a * sint b)"
    by (simp add: mulmod_res_def sint_word_ariths sint_scast_64_128)
  also have "\<dots> = sint a * sint b"
    using abs_prod_sint64 [of a b]
    by (intro signed_take_bit_int_eq_self) (simp_all add: abs_le_iff)
  finally show ?thesis .
qed

lemma smod_bounds:
  fixes p m :: int
  assumes "m \<noteq> 0"
  shows "- \<bar>m\<bar> < p smod m" "p smod m < \<bar>m\<bar>"
  using smod_int_range [OF assms, of p] by auto

lemma sint_word_srem_128:
  fixes m :: i64
  assumes "m \<noteq> 0"
  shows "sint (word_srem x (scast m :: i128)) = sint x smod sint m"
proof -
  have m0: "sint m \<noteq> 0"
    using assms by (simp add: sint_eq_0)
  have b: "- \<bar>sint m\<bar> < sint x smod sint m" "sint x smod sint m < \<bar>sint m\<bar>"
    using smod_bounds [OF m0] by auto
  have "sint (word_srem x (scast m :: i128)) = signed_take_bit 127 (sint x smod sint m)"
    by (simp add: word_srem_def sint_scast_64_128 sint_sbintrunc')
  also have "\<dots> = sint x smod sint m"
    using b abs_sint64_le [of m]
    by (intro signed_take_bit_int_eq_self) simp_all
  finally show ?thesis .
qed

lemma mulmod_sint:
  assumes "m \<noteq> 0"
  shows "\<exists>r. mulmod a b m = Some r \<and> sint r = (sint a * sint b) smod sint m"
proof -
  have m0: "sint m \<noteq> 0"
    using assms by (simp add: sint_eq_0)
  let ?q = "(sint a * sint b) smod sint m"
  have b: "- \<bar>sint m\<bar> < ?q" "?q < \<bar>sint m\<bar>"
    using smod_bounds [OF m0] by auto
  have "sint (scast (word_srem (mulmod_res a b) (scast m :: i128)) :: i64)
      = signed_take_bit 63 ?q"
    by (simp add: signed_scast_eq sint_word_srem_128 [OF assms] sint_mulmod_res)
  also have "\<dots> = ?q"
    using b abs_sint64_le [of m]
    by (intro signed_take_bit_int_eq_self) simp_all
  finally show ?thesis
    using assms by (simp add: mulmod_def)
qed

lemma smod_nonneg:
  fixes k l :: int
  assumes "0 \<le> k" "0 < l"
  shows "k smod l = k mod l"
  using assms by (cases "k = 0") (simp_all add: signed_modulo_int_def)

lemma mulmod_nonneg:
  assumes "0 < sint m" "0 \<le> sint a" "0 \<le> sint b"
  shows "\<exists>r. mulmod a b m = Some r \<and> sint r = (sint a * sint b) mod sint m"
proof -
  have "m \<noteq> 0"
    using assms(1) by auto
  from mulmod_sint [OF this, of a b] obtain r
    where r: "mulmod a b m = Some r" "sint r = (sint a * sint b) smod sint m"
    by blast
  have "0 \<le> sint a * sint b"
    using assms by simp
  then have "(sint a * sint b) smod sint m = (sint a * sint b) mod sint m"
    using assms(1) by (rule smod_nonneg)
  with r show ?thesis by simp
qed

lemma sint_halve: "sint (signed_drop_bit 1 (b :: i64)) = sint b div 2"
  by (simp add: sint_signed_drop_bit_eq drop_bit_eq_div)

lemma pow_mod_step:
  fixes R A M B :: int
  assumes "0 < B"
  shows "((if odd B then R * A mod M else R) * (A * A mod M) ^ nat (B div 2)) mod M
       = (R * A ^ nat B) mod M"
proof -
  have n: "nat B = 2 * nat (B div 2) + (if odd B then 1 else 0)"
    using assms by (auto elim!: oddE evenE simp: nat_mult_distrib nat_add_distrib)
  have e: "A ^ nat B = (if odd B then A else 1) * (A * A) ^ nat (B div 2)"
    by (subst n) (simp add: power_add power_mult power2_eq_square)
  have p: "(X * (A * A mod M) ^ n) mod M = (X * (A * A) ^ n) mod M" for X :: int and n :: nat
    by (metis mod_mult_right_eq power_mod)
  have "((if odd B then R * A mod M else R) * (A * A mod M) ^ nat (B div 2)) mod M
      = ((if odd B then R * A else R) * (A * A mod M) ^ nat (B div 2)) mod M"
    by (simp add: mod_mult_left_eq)
  also have "\<dots> = ((if odd B then R * A else R) * (A * A) ^ nat (B div 2)) mod M"
    by (rule p)
  also have "\<dots> = (R * A ^ nat B) mod M"
    by (simp add: e ac_simps)
  finally show ?thesis .
qed

lemma modexp_loop_correct:
  assumes "0 < sint m" "0 \<le> sint result" "0 \<le> sint a"
  shows "\<exists>r. snd (modexp_loop result a b m k) = Some r \<and>
           (if 0 < sint b then sint r = (sint result * sint a ^ nat (sint b)) mod sint m
            else r = result)"
  using assms
proof (induction result a b m k rule: modexp_loop.induct)
  case (1 result a b m k)
  show ?case
  proof (cases "0 <s b")
    case False
    then show ?thesis
      by (subst modexp_loop.simps) (simp add: word_sless_alt)
  next
    case True
    then have bpos: "0 < sint b"
      by (simp add: word_sless_alt)
    let ?R' = "if odd (sint b) then (sint result * sint a) mod sint m else sint result"
    have "\<exists>x. (if b AND 1 \<noteq> 0 then mulmod result a m else Some result) = Some x
        \<and> sint x = ?R'"
      using mulmod_nonneg [OF "1.prems"(1) "1.prems"(2) "1.prems"(3)]
      by (cases "odd (sint b)") (simp_all add: and_1_sint)
    then obtain result'
      where r': "(if b AND 1 \<noteq> 0 then mulmod result a m else Some result) = Some result'"
      and sr': "sint result' = ?R'"
      by blast
    obtain a' where a': "mulmod a a m = Some a'" and sa': "sint a' = (sint a * sint a) mod sint m"
      using mulmod_nonneg [OF "1.prems"(1) "1.prems"(3) "1.prems"(3)] by blast
    have nn: "0 \<le> sint result'" "0 \<le> sint a'"
      using "1.prems" by (simp_all add: sr' sa')
    from "1.IH" [OF True r' a' "1.prems"(1) nn]
    obtain r where r: "snd (modexp_loop result' a' (signed_drop_bit 1 b) m (Suc k)) = Some r"
      and rv: "if 0 < sint b div 2
               then sint r = (sint result' * sint a' ^ nat (sint b div 2)) mod sint m
               else r = result'"
      unfolding sint_halve by blast
    have unf: "modexp_loop result a b m k = modexp_loop result' a' (signed_drop_bit 1 b) m (Suc k)"
      using True r' a' by (subst modexp_loop.simps) simp
    have "sint r = (sint result * sint a ^ nat (sint b)) mod sint m"
    proof (cases "0 < sint b div 2")
      case True
      then have "sint r = (?R' * ((sint a * sint a) mod sint m) ^ nat (sint b div 2)) mod sint m"
        using rv by (simp add: sr' sa')
      then show ?thesis
        using pow_mod_step [OF bpos, of "sint result" "sint a" "sint m"] by simp
    next
      case False
      then have b1: "sint b = 1"
        using bpos by presburger
      from False have "r = result'"
        using rv by simp
      then show ?thesis
        by (simp add: sr' b1)
    qed
    then show ?thesis
      using r bpos by (simp add: unf)
  qed
qed

lemma modexp_loop_iterations:
  "sint b < 2 ^ j \<Longrightarrow> fst (modexp_loop result a b m k) \<le> k + j"
proof (induction j arbitrary: result a b k)
  case 0
  then have "\<not> 0 <s b"
    by (simp add: word_sless_alt)
  then show ?case
    by (subst modexp_loop.simps) simp
next
  case (Suc j)
  have h: "sint (signed_drop_bit 1 b) < 2 ^ j"
    unfolding sint_halve using Suc.prems by simp
  show ?case
  proof (cases "0 <s b")
    case False
    then show ?thesis
      by (subst modexp_loop.simps) simp
  next
    case True
    show ?thesis
      using True Suc.IH [OF h, of _ _ "Suc k"]
      by (subst modexp_loop.simps) (auto split: option.splits)
  qed
qed

section \<open>Fermat's little theorem and square roots of one\<close>

lemma composite_iff_not_prime: "composite_nat n \<longleftrightarrow> 1 < n \<and> \<not> prime_nat n"
  by (auto simp: composite_nat_def prime_nat_def)

lemma prime_nat_divisors:
  assumes "prime_nat p" "m dvd p"
  shows "m = 1 \<or> m = p"
proof -
  have p: "1 < p" and nd: "\<forall>k\<in>{2..<p}. \<not> k dvd p"
    using assms(1) by (simp_all add: prime_nat_def)
  have "m \<le> p"
    using assms(2) p by (simp add: dvd_imp_le)
  moreover have "m \<noteq> 0"
    using assms(2) p by (metis dvd_0_left_iff not_less_zero)
  moreover have "\<not> (2 \<le> m \<and> m < p)"
    using nd assms(2) by auto
  ultimately show ?thesis by arith
qed

lemma prime_nat_coprime:
  assumes "prime_nat p" "\<not> p dvd k"
  shows "coprime p k"
proof -
  have "gcd p k dvd p" by simp
  then have "gcd p k = 1 \<or> gcd p k = p"
    using assms(1) by (rule prime_nat_divisors [rotated])
  moreover have "gcd p k \<noteq> p"
    using assms(2) by (metis gcd_dvd2)
  ultimately show ?thesis
    by (simp add: coprime_iff_gcd_eq_1)
qed

lemma prime_nat_dvd_mult:
  assumes "prime_nat p" "p dvd a * b"
  shows "p dvd a \<or> p dvd b"
proof (cases "p dvd a")
  case True
  then show ?thesis ..
next
  case False
  then have "coprime p a"
    using assms(1) by (rule prime_nat_coprime [rotated])
  then show ?thesis
    using assms(2) by (simp add: coprime_dvd_mult_right_iff)
qed

lemma prime_nat_dvd_choose:
  assumes "prime_nat p" "0 < k" "k < p"
  shows "p dvd (p choose k)"
proof -
  obtain k' where k': "k = Suc k'"
    using assms(2) by (cases k) auto
  obtain p' where p': "p = Suc p'"
    using assms(3) by (cases p) auto
  have "k * (p choose k) = p * (p' choose k')"
    unfolding k' p' by (rule Suc_times_binomial)
  then have "p dvd k * (p choose k)"
    by simp
  moreover have "\<not> p dvd k"
    using assms(2,3) by (auto dest: dvd_imp_le)
  ultimately show ?thesis
    using prime_nat_dvd_mult [OF assms(1)] by blast
qed

lemma prime_nat_power_Suc:
  assumes "prime_nat p"
  shows "(a + 1) ^ p mod p = (a ^ p + 1) mod p"
proof -
  have p: "0 < p"
    using assms by (simp add: prime_nat_def)
  have split: "{..p} = insert 0 (insert p {1..<p})"
    using p by auto
  have "(a + 1) ^ p = (\<Sum>k\<le>p. (p choose k) * a ^ k)"
    using binomial [of a 1 p] by simp
  also have "\<dots> = 1 + a ^ p + (\<Sum>k\<in>{1..<p}. (p choose k) * a ^ k)"
    using p by (simp add: split)
  finally have e: "(a + 1) ^ p = (a ^ p + 1) + (\<Sum>k\<in>{1..<p}. (p choose k) * a ^ k)"
    by simp
  have "p dvd (\<Sum>k\<in>{1..<p}. (p choose k) * a ^ k)"
    by (rule dvd_sum) (simp add: prime_nat_dvd_choose [OF assms])
  then obtain c where c: "(\<Sum>k\<in>{1..<p}. (p choose k) * a ^ k) = p * c" ..
  have "(a + 1) ^ p mod p = ((a ^ p + 1) + p * c) mod p"
    by (simp only: e c)
  also have "\<dots> = (a ^ p + 1) mod p"
    by (rule mod_mult_self2)
  finally show ?thesis .
qed

lemma fermat_power:
  assumes "prime_nat p"
  shows "a ^ p mod p = a mod p"
proof (induction a)
  case 0
  have "0 < p" using assms by (simp add: prime_nat_def)
  then show ?case by (simp add: power_0_left)
next
  case (Suc a)
  have "Suc a ^ p mod p = (a ^ p + 1) mod p"
    using prime_nat_power_Suc [OF assms, of a] by simp
  also have "\<dots> = (a ^ p mod p + 1) mod p"
    by (rule mod_add_left_eq [symmetric])
  also have "\<dots> = (a mod p + 1) mod p"
    by (simp only: Suc.IH)
  also have "\<dots> = (a + 1) mod p"
    by (rule mod_add_left_eq)
  also have "\<dots> = Suc a mod p"
    by simp
  finally show ?case .
qed

lemma fermat_little:
  assumes "prime_nat p" "\<not> p dvd a"
  shows "a ^ (p - 1) mod p = 1"
proof -
  have p: "1 < p"
    using assms(1) by (simp add: prime_nat_def)
  have a0: "0 < a"
    using assms(2) by (cases a) auto
  then have ge: "1 \<le> a ^ (p - 1)"
    by simp
  have pw: "a ^ p = a * a ^ (p - 1)"
    using p by (cases p) simp_all
  have "a ^ p mod p = a mod p"
    by (rule fermat_power [OF assms(1)])
  moreover have "a \<le> a ^ p"
    using ge by (simp add: pw)
  ultimately have "p dvd a ^ p - a"
    by (simp add: mod_eq_dvd_iff_nat)
  also have "a ^ p - a = a * (a ^ (p - 1) - 1)"
    by (simp add: pw diff_mult_distrib2)
  finally have "p dvd a ^ (p - 1) - 1"
    using prime_nat_dvd_mult [OF assms(1)] assms(2) by blast
  then have "a ^ (p - 1) mod p = 1 mod p"
    using mod_eq_dvd_iff_nat [OF ge, of p] by blast
  moreover have "1 mod p = 1"
    using p by simp
  ultimately show ?thesis
    by (simp only:)
qed

lemma prime_nat_sqrt_one:
  assumes "prime_nat p" "x < p" "x * x mod p = 1"
  shows "x = 1 \<or> x = p - 1"
proof -
  have p: "1 < p"
    using assms(1) by (simp add: prime_nat_def)
  have x0: "0 < x"
    using assms(3) by (cases x) auto
  then have ge: "1 \<le> x * x"
    by (simp add: Suc_le_eq)
  have "1 mod p = 1"
    using p by simp
  then have "x * x mod p = 1 mod p"
    using assms(3) by (simp only:)
  then have "p dvd x * x - 1"
    using mod_eq_dvd_iff_nat [OF ge, of p] by blast
  also have "x * x - 1 = (x - 1) * (x + 1)"
    using x0 by (cases x) (simp_all add: algebra_simps)
  finally have "p dvd x - 1 \<or> p dvd x + 1"
    by (rule prime_nat_dvd_mult [OF assms(1)])
  then show ?thesis
  proof
    assume "p dvd x - 1"
    then have "x - 1 = 0"
      using assms(2) by (metis dvd_imp_le less_imp_diff_less not_le gr0I)
    then show ?thesis using x0 by simp
  next
    assume "p dvd x + 1"
    then have "p \<le> x + 1"
      by (rule dvd_imp_le) simp
    then show ?thesis using assms(2) by arith
  qed
qed

lemma prime_nat_strong_probable:
  assumes "prime_nat p" "a ^ (d * 2 ^ s) mod p = 1"
  shows "a ^ d mod p = 1 \<or> (\<exists>r < s. a ^ (d * 2 ^ r) mod p = p - 1)"
  using assms(2)
proof (induction s)
  case 0
  then show ?case by simp
next
  case (Suc s)
  let ?x = "a ^ (d * 2 ^ s) mod p"
  have p: "1 < p"
    using assms(1) by (simp add: prime_nat_def)
  have "d * 2 ^ Suc s = d * 2 ^ s + d * 2 ^ s"
    by simp
  then have "a ^ (d * 2 ^ Suc s) = a ^ (d * 2 ^ s) * a ^ (d * 2 ^ s)"
    by (simp only: power_add)
  then have "?x * ?x mod p = 1"
    using Suc.prems by (simp add: mod_mult_eq)
  moreover have "?x < p"
    using p by simp
  ultimately have "?x = 1 \<or> ?x = p - 1"
    by (rule prime_nat_sqrt_one [OF assms(1), rotated])
  then show ?case
  proof
    assume "?x = 1"
    from Suc.IH [OF this] show ?thesis
      using less_Suc_eq by auto
  next
    assume "?x = p - 1"
    then show ?thesis by blast
  qed
qed

section \<open>The witness evaluator decides the Miller--Rabin condition\<close>

lemma sint_minus_1:
  fixes n :: i64
  assumes "3 \<le> sint n"
  shows "sint (n - 1) = sint n - 1"
proof -
  have "sint (n - 1) = signed_take_bit 63 (sint n - 1)"
    by (simp add: sint_word_ariths)
  also have "\<dots> = sint n - 1"
    using assms sint64_bounds [of n] by (intro signed_take_bit_int_eq_self) simp_all
  finally show ?thesis .
qed

lemma sint_succ_32:
  fixes r s :: i32
  assumes "r <s s"
  shows "sint (r + 1) = sint r + 1"
proof -
  have lt: "sint r < sint s"
    using assms by (simp add: word_sless_alt)
  have "sint s < 2 ^ 31"
    using sint_lt [of s] by simp
  with lt have up: "sint r + 1 < 2 ^ 31"
    by simp
  have lo: "- (2 ^ 31) \<le> sint r + 1"
    using sint_ge [of r] by simp
  have "sint (r + 1) = signed_take_bit 31 (sint r + 1)"
    by (simp add: sint_word_ariths)
  also have "\<dots> = sint r + 1"
    using lo up by (simp add: signed_take_bit_int_eq_self)
  finally show ?thesis .
qed

lemma square_power_mod:
  fixes x N :: int
  shows "x ^ (2 ^ Suc j) mod N = (x * x mod N) ^ (2 ^ j) mod N"
proof -
  have "x ^ (2 ^ Suc j) = (x * x) ^ (2 ^ j)"
    by (simp add: power_mult power2_eq_square)
  then show ?thesis
    by (simp add: power_mod)
qed

lemma check_composite_loop_correct:
  assumes "3 \<le> sint n" "0 \<le> sint x"
  shows "snd (check_composite_loop x n r s k)
       = Some (\<forall>j < nat (sint s - sint r). sint x ^ (2 ^ Suc j) mod sint n \<noteq> sint n - 1)"
  using assms
proof (induction x n r s k rule: check_composite_loop.induct)
  case (1 x n r s c)
  let ?N = "sint n"
  have npos: "0 < ?N"
    using "1.prems"(1) by simp
  show ?case
  proof (cases "r <s s")
    case False
    then have "nat (sint s - sint r) = 0"
      by (simp add: word_sless_alt)
    then show ?thesis
      using False by (subst check_composite_loop.simps) simp
  next
    case True
    then have lt: "sint r < sint s"
      by (simp add: word_sless_alt)
    then obtain k where k: "nat (sint s - sint r) = Suc k"
      by (cases "nat (sint s - sint r)") auto
    obtain x' where x': "mulmod x x n = Some x'" and sx': "sint x' = (sint x * sint x) mod ?N"
      using mulmod_nonneg [OF npos "1.prems"(2) "1.prems"(2)] by blast
    have nn: "0 \<le> sint x'"
      using npos by (simp add: sx')
    define Q where "Q \<longleftrightarrow> (\<forall>j < k. sint x' ^ (2 ^ Suc j) mod ?N \<noteq> ?N - 1)"
    have a: "sint x ^ (2 ^ Suc 0) mod ?N = sint x'"
      by (simp add: sx' power2_eq_square)
    have b: "sint x ^ (2 ^ Suc (Suc j)) mod ?N = sint x' ^ (2 ^ Suc j) mod ?N" for j
      using square_power_mod [of "sint x" "Suc j" ?N] by (simp only: sx' power_mod)
    have goal_eq: "(\<forall>j < nat (sint s - sint r). sint x ^ (2 ^ Suc j) mod ?N \<noteq> ?N - 1)
        \<longleftrightarrow> sint x' \<noteq> ?N - 1 \<and> Q"
      unfolding k All_less_Suc2 a b Q_def ..
    have eq_n1: "x' = n - 1 \<longleftrightarrow> sint x' = ?N - 1"
      using sint_minus_1 [OF "1.prems"(1)] by (metis sint_inj)
    have eq_1: "x' = 1 \<longleftrightarrow> sint x' = 1"
      by (metis sint_inj sint_1_64)
    have unf: "snd (check_composite_loop x n r s c) =
        (if x' = n - 1 then Some False
         else if x' = 1 then Some True
         else snd (check_composite_loop x' n (r + 1) s (Suc c)))"
      using True x' by (subst check_composite_loop.simps) simp
    consider (hit) "x' = n - 1" | (one) "x' \<noteq> n - 1" "x' = 1" | (go) "x' \<noteq> n - 1" "x' \<noteq> 1"
      by blast
    then show ?thesis
    proof cases
      case hit
      then show ?thesis
        unfolding unf goal_eq using eq_n1 by simp
    next
      case one
      have "sint x' ^ (2 ^ Suc j) mod ?N \<noteq> ?N - 1" for j
        using "1.prems"(1) one(2) eq_1 by simp
      then have Q
        by (simp add: Q_def)
      then show ?thesis
        unfolding unf goal_eq using one eq_n1 by simp
    next
      case go
      have "nat (sint s - sint (r + 1)) = k"
        using k sint_succ_32 [OF True] by simp
      with "1.IH" [OF True x' go "1.prems"(1) nn]
      have "snd (check_composite_loop x' n (r + 1) s (Suc c)) = Some Q"
        unfolding Q_def by (simp only:)
      then show ?thesis
        unfolding unf goal_eq using go eq_n1 by simp
    qed
  qed
qed

lemma modexp_correct:
  assumes "0 \<le> sint a" "0 < sint m" "0 < sint b \<or> 1 < sint m"
  shows "\<exists>r. modexp a b m = Some r \<and>
           sint r = (if 0 < sint b then sint a ^ nat (sint b) mod sint m else 1)"
proof -
  have one: "0 \<le> sint (1 :: i64)"
    by simp
  from modexp_loop_correct [OF assms(2) one assms(1), of b 0]
  show ?thesis
    by (auto simp: modexp_def)
qed

lemma modexp_power:
  assumes "0 \<le> sint a" "1 < sint m"
  shows "\<exists>r. modexp a b m = Some r \<and> sint r = sint a ^ nat (sint b) mod sint m"
proof -
  have "0 < sint m" "0 < sint b \<or> 1 < sint m"
    using assms(2) by simp_all
  from modexp_correct [OF assms(1) this] obtain r
    where r: "modexp a b m = Some r"
      "sint r = (if 0 < sint b then sint a ^ nat (sint b) mod sint m else 1)"
    by blast
  have "sint r = sint a ^ nat (sint b) mod sint m"
  proof (cases "0 < sint b")
    case True
    then show ?thesis using r(2) by simp
  next
    case False
    then have "nat (sint b) = 0" by simp
    then show ?thesis using r(2) False assms(2) by simp
  qed
  with r(1) show ?thesis by blast
qed

lemma power_power_mod:
  fixes A N :: int
  shows "A ^ (D * 2 ^ r) mod N = (A ^ D mod N) ^ (2 ^ r) mod N"
  by (simp add: power_mult power_mod)

lemma check_composite_correct:
  assumes "3 \<le> sint n" "0 \<le> sint a" "1 \<le> sint s"
  shows "check_composite a d n s
       = Some (\<not> strong_probable_prime (sint a) (nat (sint d)) (sint n) (nat (sint s)))"
proof -
  let ?N = "sint n" and ?A = "sint a" and ?D = "nat (sint d)"
  obtain S where S: "nat (sint s) = Suc S"
    using assms(3) by (cases "nat (sint s)") auto
  have m1: "1 < ?N"
    using assms(1) by simp
  obtain x where x: "modexp a d n = Some x" and sx: "sint x = ?A ^ ?D mod ?N"
    using modexp_power [OF assms(2) m1] by blast
  have xr: "0 \<le> sint x" "sint x < ?N"
    using m1 by (simp_all add: sx)
  have pw: "?A ^ (?D * 2 ^ r) mod ?N = sint x ^ (2 ^ r) mod ?N" for r
    unfolding sx by (rule power_power_mod)
  have pw0: "?A ^ (?D * 2 ^ 0) mod ?N = sint x"
    by (simp add: sx)
  have spp: "strong_probable_prime ?A ?D ?N (nat (sint s)) \<longleftrightarrow>
      sint x = 1 \<or> sint x = ?N - 1 \<or> (\<exists>j < S. sint x ^ (2 ^ Suc j) mod ?N = ?N - 1)"
    unfolding strong_probable_prime_def S Ex_less_Suc2 pw0 unfolding pw sx ..
  have eq_n1: "x = n - 1 \<longleftrightarrow> sint x = ?N - 1"
    using sint_minus_1 [OF assms(1)] by (metis sint_inj)
  have eq_1: "x = 1 \<longleftrightarrow> sint x = 1"
    by (metis sint_inj sint_1_64)
  have S': "nat (sint s - sint (1 :: i32)) = S"
    using S by simp
  have loop: "snd (check_composite_loop x n 1 s 0)
      = Some (\<forall>j < S. sint x ^ (2 ^ Suc j) mod ?N \<noteq> ?N - 1)"
    using check_composite_loop_correct [OF assms(1) xr(1), of 1 s 0] unfolding S' .
  show ?thesis
    unfolding check_composite_def check_composite_run_def x spp using eq_n1 eq_1 loop by auto
qed

section \<open>Decomposition and the loop over the bases\<close>

lemma decompose_pos:
  fixes d :: i64
  assumes "0 < sint d"
  shows "\<exists>d' j. decompose d s = Some (d', s + of_nat j) \<and> odd (sint d') \<and>
           sint d = sint d' * 2 ^ j"
  using assms
proof (induction "nat (sint d)" arbitrary: d s rule: less_induct)
  case less
  show ?case
  proof (cases "odd (sint d)")
    case True
    then have "decompose d s = Some (d, s)"
      using and_1_sint [of d] by (subst decompose.simps) simp
    then have "decompose d s = Some (d, s + of_nat 0) \<and> odd (sint d) \<and> sint d = sint d * 2 ^ 0"
      using True by simp
    then show ?thesis by blast
  next
    case False
    let ?h = "signed_drop_bit 1 d"
    have h: "sint ?h = sint d div 2"
      by (rule sint_halve)
    have two: "2 \<le> sint d"
      using False less.prems by presburger
    then have hpos: "0 < sint ?h" and hlt': "sint ?h < sint d"
      unfolding h by simp_all
    then have hlt: "nat (sint ?h) < nat (sint d)"
      by simp
    from less.hyps [OF hlt hpos, of "s + 1"] obtain d' j
      where r: "decompose ?h (s + 1) = Some (d', s + 1 + of_nat j)" "odd (sint d')"
        "sint ?h = sint d' * 2 ^ j"
      by blast
    have unf: "decompose d s = decompose ?h (s + 1)"
      using False and_1_sint [of d] by (subst decompose.simps) simp
    have "sint d = 2 * (sint d div 2)"
      using False by simp
    also have "\<dots> = sint d' * 2 ^ Suc j"
      using r(3) unfolding h by simp
    finally have "sint d = sint d' * 2 ^ Suc j" .
    moreover have "decompose d s = Some (d', s + of_nat (Suc j))"
      unfolding unf r(1) by (simp add: ac_simps)
    ultimately show ?thesis
      using r(2) by blast
  qed
qed

lemma sint_of_nat_32:
  assumes "j < 63"
  shows "sint (of_nat j :: i32) = int j"
proof -
  have "sint (of_nat j :: i32) = signed_take_bit 31 (int j)"
    by (simp add: signed_of_nat)
  also have "\<dots> = int j"
    using assms by (intro signed_take_bit_int_eq_self) simp_all
  finally show ?thesis .
qed

lemma decompose_isPrime:
  fixes n :: i64
  assumes "odd (sint n)" "3 \<le> sint n"
  shows "\<exists>d s. decompose (n - 1) 0 = Some (d, s) \<and> odd (sint d) \<and> 0 < sint d \<and>
           1 \<le> sint s \<and> sint n - 1 = sint d * 2 ^ nat (sint s)"
proof -
  have n1: "sint (n - 1) = sint n - 1"
    by (rule sint_minus_1 [OF assms(2)])
  have "0 < sint (n - 1)"
    using assms(2) unfolding n1 by simp
  from decompose_pos [OF this, of 0] obtain d j
    where r: "decompose (n - 1) 0 = Some (d, of_nat j)" "odd (sint d)"
      "sint n - 1 = sint d * 2 ^ j"
    unfolding n1 by auto
  have dpos: "0 < sint d"
  proof (rule ccontr)
    assume "\<not> 0 < sint d"
    then have "sint d * 2 ^ j \<le> 0"
      by (simp add: mult_le_0_iff)
    then show False
      using r(3) assms(2) by simp
  qed
  have j0: "j \<noteq> 0"
  proof
    assume "j = 0"
    then have "sint n - 1 = sint d"
      using r(3) by simp
    then show False
      using assms(1) r(2) by presburger
  qed
  have "(2::int) ^ j \<le> sint d * 2 ^ j"
    using dpos by simp
  also have "\<dots> < 2 ^ 63"
    using sint64_bounds [of n] unfolding r(3) [symmetric] by simp
  finally have "j < 63"
    by (simp add: power_strict_increasing_iff [where b = "2::int", symmetric] del: power_strict_increasing_iff)
  then have sj: "sint (of_nat j :: i32) = int j"
    by (rule sint_of_nat_32)
  have "1 \<le> sint (of_nat j :: i32)" "sint n - 1 = sint d * 2 ^ nat (sint (of_nat j :: i32))"
    using j0 r(3) unfolding sj by simp_all
  with r(1,2) dpos show ?thesis
    by blast
qed

lemma bases_loop_correct:
  assumes "3 \<le> sint n" "1 \<le> sint s" "\<forall>a\<in>set as. 0 \<le> sint a"
  shows "snd (bases_loop as d n s tested)
       = Some (\<forall>a\<in>set as. sint a < sint n \<longrightarrow>
                 strong_probable_prime (sint a) (nat (sint d)) (sint n) (nat (sint s)))"
  using assms(3)
proof (induction as arbitrary: tested)
  case Nil
  then show ?case by simp
next
  case (Cons a as)
  have a: "0 \<le> sint a" and rest: "\<forall>a\<in>set as. 0 \<le> sint a"
    using Cons.prems by simp_all
  note cc = check_composite_correct [OF assms(1) a assms(2)]
  show ?case
    using Cons.IH [OF rest] by (auto simp: cc word_sle_eq)
qed

lemma test_bases_nonneg: "\<forall>a\<in>set test_bases. 0 \<le> sint a"
  by (simp add: test_bases_def)

lemma word_srem_2:
  fixes n :: i64
  assumes "0 \<le> sint n"
  shows "word_srem n 2 = 0 \<longleftrightarrow> even (sint n)"
proof -
  have "sint n smod sint (2 :: i64) = sint n mod 2"
    using assms by (simp add: smod_nonneg)
  then have "word_srem n 2 = (word_of_int (sint n mod 2) :: i64)"
    by (simp add: word_srem_def)
  also have "\<dots> = 0 \<longleftrightarrow> even (sint n)"
    by (cases "even (sint n)") (simp_all add: odd_iff_mod_2_eq_one)
  finally show ?thesis .
qed

lemma isPrime_odd_unfold:
  assumes "odd (sint n)" "3 \<le> sint n"
  shows "isPrime_run n = (case decompose (n - 1) 0 of None \<Rightarrow> ([], None)
                          | Some (d, s) \<Rightarrow> bases_loop test_bases d n s [])"
proof -
  have "\<not> n <s 2"
    using assms(2) by (simp add: word_sless_alt)
  moreover have "word_srem n 2 \<noteq> 0"
    using assms by (simp add: word_srem_2)
  ultimately show ?thesis
    by (simp add: isPrime_run_def)
qed

lemma isPrime_odd_correct:
  assumes "odd (sint n)" "3 \<le> sint n"
  shows "\<exists>d s. decompose (n - 1) 0 = Some (d, s) \<and> odd (sint d) \<and> 0 < sint d \<and>
           1 \<le> sint s \<and> sint n - 1 = sint d * 2 ^ nat (sint s) \<and>
           isPrime_run n = bases_loop test_bases d n s [] \<and>
           isPrime n = Some (\<forall>a\<in>set test_bases. sint a < sint n \<longrightarrow>
               strong_probable_prime (sint a) (nat (sint d)) (sint n) (nat (sint s)))"
proof -
  from decompose_isPrime [OF assms] obtain d s
    where r: "decompose (n - 1) 0 = Some (d, s)" "odd (sint d)" "0 < sint d"
      "1 \<le> sint s" "sint n - 1 = sint d * 2 ^ nat (sint s)"
    by blast
  have ip: "isPrime_run n = bases_loop test_bases d n s []"
    unfolding isPrime_odd_unfold [OF assms] r(1) by simp
  note bl = bases_loop_correct [OF assms(2) r(4) test_bases_nonneg, of d "[]"]
  show ?thesis
    using r ip bl by (intro exI [of _ d] exI [of _ s]) (simp add: isPrime_def)
qed

section \<open>The evaluators compute the mathematical notions\<close>

lemma pow_mod_loop_eq:
  "pow_mod_loop r a b m = (if 0 < b then (r * a ^ nat b) mod m else r)"
proof (induction r a b m rule: pow_mod_loop.induct)
  case (1 r a b m)
  show ?case
  proof (cases "0 < b")
    case False
    then show ?thesis
      by (subst pow_mod_loop.simps) simp
  next
    case True
    let ?r' = "if odd b then r * a mod m else r"
    have unf: "pow_mod_loop r a b m = pow_mod_loop ?r' (a * a mod m) (b div 2) m"
      using True by (subst pow_mod_loop.simps) simp
    have ih: "pow_mod_loop ?r' (a * a mod m) (b div 2) m
        = (if 0 < b div 2 then (?r' * (a * a mod m) ^ nat (b div 2)) mod m else ?r')"
      by (rule "1.IH" [OF True])
    show ?thesis
    proof (cases "0 < b div 2")
      case True
      then show ?thesis
        unfolding unf ih using pow_mod_step [OF \<open>0 < b\<close>, of r a m] \<open>0 < b\<close> by simp
    next
      case False
      then have "b = 1"
        using \<open>0 < b\<close> by presburger
      then show ?thesis
        unfolding unf ih by simp
    qed
  qed
qed

lemma squarings_hit_eq:
  assumes "0 \<le> x" "x < n"
  shows "squarings_hit x n k \<longleftrightarrow> (\<exists>r < k. x ^ (2 ^ r) mod n = n - 1)"
  using assms
proof (induction k arbitrary: x)
  case 0
  then show ?case by simp
next
  case (Suc k)
  have x': "0 \<le> x * x mod n" "x * x mod n < n"
    using Suc.prems by simp_all
  have a: "x ^ (2 ^ 0) mod n = x"
    using Suc.prems by simp
  show ?case
    unfolding Ex_less_Suc2 a square_power_mod squarings_hit.simps Suc.IH [OF x'] by simp
qed

lemma spp_eval_eq:
  assumes "1 < n" "0 \<le> d"
  shows "spp_eval a d n s \<longleftrightarrow> strong_probable_prime a (nat d) n s"
proof -
  have p: "pow_mod_loop 1 a d n = a ^ nat d mod n"
    using assms by (cases "0 < d") (simp_all add: pow_mod_loop_eq)
  have r: "0 \<le> a ^ nat d mod n" "a ^ nat d mod n < n"
    using assms(1) by simp_all
  show ?thesis
    unfolding spp_eval_def p one_or_hit.simps squarings_hit_eq [OF r] strong_probable_prime_def
    by (auto simp: power_power_mod [symmetric])
qed

lemma passes_bases_eq:
  assumes "1 < n" "0 \<le> d"
  shows "passes_bases as d n s \<longleftrightarrow> (\<forall>a\<in>set as. a < n \<longrightarrow> strong_probable_prime a (nat d) n s)"
  by (induction as) (auto simp: spp_eval_eq [OF assms])

lemma isPrime_eval:
  assumes "decompose (n - 1) 0 = Some (d, s)" "odd (sint n)" "3 \<le> sint n"
  shows "isPrime n = Some (passes_bases (map sint test_bases) (sint d) (sint n) (nat (sint s)))"
proof -
  from isPrime_odd_correct [OF assms(2,3)] assms(1)
  have d: "0 < sint d"
    and ip: "isPrime n = Some (\<forall>a\<in>set test_bases. sint a < sint n \<longrightarrow>
               strong_probable_prime (sint a) (nat (sint d)) (sint n) (nat (sint s)))"
    by auto
  have "1 < sint n" "0 \<le> sint d"
    using assms(3) d by simp_all
  from passes_bases_eq [OF this] show ?thesis
    unfolding ip by simp
qed

lemma int_power_mod_nat:
  assumes "0 \<le> A" "0 \<le> N"
  shows "A ^ k mod N = int (nat A ^ k mod nat N)"
  using assms by (simp add: zmod_int)

lemma prime_strong_probable:
  fixes A N :: int
  assumes "prime_nat (nat N)" "0 < A" "A < N" "N - 1 = D * 2 ^ S"
  shows "strong_probable_prime A (nat D) N S"
proof -
  let ?p = "nat N" and ?a = "nat A"
  have p: "1 < ?p"
    using assms(1) by (simp add: prime_nat_def)
  have N: "0 \<le> N" "0 \<le> A"
    using assms(2,3) by simp_all
  have D: "0 \<le> D"
  proof (rule ccontr)
    assume "\<not> 0 \<le> D"
    then have "D * 2 ^ S < 0"
      by (simp add: mult_less_0_iff)
    then show False
      using assms(2,3,4) by simp
  qed
  have "\<not> ?p dvd ?a"
    using assms(2,3) by (auto dest!: dvd_imp_le)
  then have f: "?a ^ (?p - 1) mod ?p = 1"
    by (rule fermat_little [OF assms(1)])
  have "int (?p - 1) = N - 1"
    using p by simp
  also have "\<dots> = int (nat D * 2 ^ S)"
    using D assms(4) by simp
  finally have "?p - 1 = nat D * 2 ^ S"
    by (simp only: of_nat_eq_iff)
  with f have "?a ^ (nat D * 2 ^ S) mod ?p = 1"
    by simp
  from prime_nat_strong_probable [OF assms(1) this]
  have "?a ^ nat D mod ?p = 1 \<or> (\<exists>r < S. ?a ^ (nat D * 2 ^ r) mod ?p = ?p - 1)" .
  then show ?thesis
  proof
    assume "?a ^ nat D mod ?p = 1"
    then have "A ^ nat D mod N = 1"
      unfolding int_power_mod_nat [OF N(2) N(1)] by simp
    then show ?thesis
      by (simp add: strong_probable_prime_def)
  next
    assume "\<exists>r < S. ?a ^ (nat D * 2 ^ r) mod ?p = ?p - 1"
    then obtain r where r: "r < S" "?a ^ (nat D * 2 ^ r) mod ?p = ?p - 1"
      by blast
    have "A ^ (nat D * 2 ^ r) mod N = int (?p - 1)"
      unfolding int_power_mod_nat [OF N(2) N(1)] r(2) ..
    also have "\<dots> = N - 1"
      using p by simp
    finally show ?thesis
      using r(1) by (auto simp: strong_probable_prime_def)
  qed
qed

section \<open>Further facts about the loops\<close>

lemma modexp_loop_returns:
  assumes "m \<noteq> 0"
  shows "\<exists>r. snd (modexp_loop result a b m k) = Some r"
  using assms
proof (induction result a b m k rule: modexp_loop.induct)
  case (1 result a b m k)
  note m0 = \<open>m \<noteq> 0\<close>
  show ?case
  proof (cases "0 <s b")
    case False
    then show ?thesis
      by (subst modexp_loop.simps) simp
  next
    case True
    obtain x where x: "mulmod result a m = Some x"
      using mulmod_sint [OF m0, of result a] by blast
    then obtain result'
      where r': "(if b AND 1 \<noteq> 0 then mulmod result a m else Some result) = Some result'"
      by (cases "b AND 1 \<noteq> 0") simp_all
    obtain a' where a': "mulmod a a m = Some a'"
      using mulmod_sint [OF m0, of a a] by blast
    from "1.IH" [OF True r' a' m0] show ?thesis
      using True r' a' by (subst modexp_loop.simps) simp
  qed
qed

lemma power_chain_one:
  fixes A N :: int
  assumes "A ^ (D * 2 ^ j) mod N = 1" "j \<le> r" "1 < N"
  shows "A ^ (D * 2 ^ r) mod N = 1"
proof -
  obtain k where k: "r = j + k"
    using assms(2) by (auto simp: le_iff_add)
  have "A ^ (D * 2 ^ r) = (A ^ (D * 2 ^ j)) ^ (2 ^ k)"
    unfolding k by (simp add: power_add power_mult mult.assoc)
  then have "A ^ (D * 2 ^ r) mod N = (A ^ (D * 2 ^ j) mod N) ^ (2 ^ k) mod N"
    by (simp add: power_mod)
  then show ?thesis
    using assms(1,3) by simp
qed

lemma sless_not_sle: "a <s n \<longleftrightarrow> \<not> n \<le>s a"
  by (auto simp: word_sless_alt word_sle_eq)

lemma bases_loop_verdict:
  assumes "\<forall>a\<in>set as. \<exists>w. check_composite a d n s = Some w"
  shows "snd (bases_loop as d n s tested)
       = Some (\<forall>a\<in>set as. a <s n \<longrightarrow> check_composite a d n s = Some False)"
  using assms
proof (induction as arbitrary: tested)
  case Nil
  then show ?case by simp
next
  case (Cons a as)
  then obtain w where w: "check_composite a d n s = Some w"
    by auto
  have "snd (bases_loop as d n s t)
      = Some (\<forall>a\<in>set as. a <s n \<longrightarrow> check_composite a d n s = Some False)" for t
    using Cons by simp
  then show ?case
    using w by (cases w) (simp_all add: sless_not_sle)
qed

lemma bases_loop_all_pass:
  assumes "\<forall>a\<in>set as. a <s n \<longrightarrow> check_composite a d n s = Some False"
  shows "bases_loop as d n s tested = (tested @ filter (\<lambda>a. a <s n) as, Some True)"
  using assms
proof (induction as arbitrary: tested)
  case Nil
  then show ?case by simp
next
  case (Cons a as)
  then have ih: "bases_loop as d n s t = (t @ filter (\<lambda>a. a <s n) as, Some True)" for t
    by simp
  show ?case
  proof (cases "a <s n")
    case True
    then have "check_composite a d n s = Some False"
      using Cons.prems by simp
    then show ?thesis
      using True by (simp add: ih sless_not_sle [symmetric])
  next
    case False
    then show ?thesis
      by (simp add: ih sless_not_sle [symmetric])
  qed
qed

lemma bases_loop_first_witness:
  assumes "\<forall>b\<in>set pre. b <s n \<longrightarrow> check_composite b d n s = Some False"
    and "a <s n" "check_composite a d n s = Some True"
  shows "bases_loop (pre @ a # post) d n s tested
       = (tested @ filter (\<lambda>b. b <s n) pre @ [a], Some False)"
  using assms(1)
proof (induction pre arbitrary: tested)
  case Nil
  then show ?case
    using assms(2,3) by (simp add: sless_not_sle)
next
  case (Cons b pre)
  then have ih: "bases_loop (pre @ a # post) d n s t
      = (t @ filter (\<lambda>b. b <s n) pre @ [a], Some False)" for t
    by simp
  show ?case
  proof (cases "b <s n")
    case True
    then have "check_composite b d n s = Some False"
      using Cons.prems by simp
    then show ?thesis
      using True by (simp add: ih sless_not_sle [symmetric])
  next
    case False
    then show ?thesis
      by (simp add: ih sless_not_sle [symmetric])
  qed
qed

lemma isPrime_accepts_primes:
  assumes "prime_nat (nat (sint n))"
  shows "isPrime n = Some True"
proof -
  let ?N = "sint n"
  have p: "1 < nat ?N" and nd: "\<forall>m\<in>{2..<nat ?N}. \<not> m dvd nat ?N"
    using assms by (simp_all add: prime_nat_def)
  have n2: "2 \<le> ?N"
    using p by simp
  show ?thesis
  proof (cases "even ?N")
    case True
    have "?N = 2"
    proof (rule ccontr)
      assume "?N \<noteq> 2"
      then have "2 \<in> {2..<nat ?N}"
        using n2 by simp
      moreover have "2 dvd nat ?N"
        using True n2 by (simp add: even_nat_iff)
      ultimately show False
        using nd by blast
    qed
    then have "sint n = sint (2 :: i64)"
      by simp
    then have "n = 2"
      by (rule sint_inj)
    then show ?thesis
      by (simp add: isPrime_def isPrime_run_def word_srem_2)
  next
    case False
    then have n3: "3 \<le> ?N"
      using n2 by presburger
    from isPrime_odd_correct [OF False n3] obtain d :: i64 and s :: i32
      where r: "sint n - 1 = sint d * 2 ^ nat (sint s)"
        "isPrime n = Some (\<forall>a\<in>set test_bases. sint a < sint n \<longrightarrow>
           strong_probable_prime (sint a) (nat (sint d)) (sint n) (nat (sint s)))"
      by (elim exE conjE)
    have "strong_probable_prime (sint a) (nat (sint d)) ?N (nat (sint s))"
      if "a \<in> set test_bases" "sint a < ?N" for a
    proof -
      have "0 < sint a"
        using that(1) by (auto simp: test_bases_def)
      from prime_strong_probable [OF assms this that(2) r(1)] show ?thesis .
    qed
    then show ?thesis
      unfolding r(2) by simp
  qed
qed

lemma check_composite_loop_step:
  assumes "3 \<le> sint n" "0 \<le> sint x" "r <s s"
  shows "\<exists>x'. sint x' = sint x * sint x mod sint n \<and> 0 \<le> sint x' \<and>
    (x' = n - 1 \<longleftrightarrow> sint x' = sint n - 1) \<and> (x' = 1 \<longleftrightarrow> sint x' = 1) \<and>
    sint (r + 1) = sint r + 1 \<and>
    (\<forall>k. check_composite_loop x n r s k =
       (if x' = n - 1 then (Suc k, Some False)
        else if x' = 1 then (Suc k, Some True)
        else check_composite_loop x' n (r + 1) s (Suc k)))"
proof -
  have npos: "0 < sint n"
    using assms(1) by simp
  obtain x' where x': "mulmod x x n = Some x'" and sx': "sint x' = sint x * sint x mod sint n"
    using mulmod_nonneg [OF npos assms(2) assms(2)] by blast
  have nn: "0 \<le> sint x'"
    using npos by (simp add: sx')
  have eq_n1: "x' = n - 1 \<longleftrightarrow> sint x' = sint n - 1"
    using sint_minus_1 [OF assms(1)] by (metis sint_inj)
  have eq_1: "x' = 1 \<longleftrightarrow> sint x' = 1"
    by (metis sint_inj sint_1_64)
  have unf: "check_composite_loop x n r s k =
       (if x' = n - 1 then (Suc k, Some False)
        else if x' = 1 then (Suc k, Some True)
        else check_composite_loop x' n (r + 1) s (Suc k))" for k
    using assms(3) x' by (subst check_composite_loop.simps) simp
  show ?thesis
    using sx' nn eq_n1 eq_1 sint_succ_32 [OF assms(3)] unf
    by (intro exI [of _ x'] conjI allI)
qed

lemma check_composite_loop_stop:
  assumes "3 \<le> sint n" "0 \<le> sint x" "int j < sint s - sint r"
    and "\<forall>i < j. sint x ^ (2 ^ Suc i) mod sint n \<noteq> 1 \<and>
                  sint x ^ (2 ^ Suc i) mod sint n \<noteq> sint n - 1"
    and "sint x ^ (2 ^ Suc j) mod sint n = 1 \<or> sint x ^ (2 ^ Suc j) mod sint n = sint n - 1"
  shows "check_composite_loop x n r s k
       = (k + Suc j, Some (sint x ^ (2 ^ Suc j) mod sint n \<noteq> sint n - 1))"
  using assms(2-5)
proof (induction j arbitrary: x r k)
  case 0
  have lt: "r <s s"
    using "0.prems"(2) by (simp add: word_sless_alt)
  from check_composite_loop_step [OF assms(1) "0.prems"(1) lt] obtain x'
    where x': "sint x' = sint x * sint x mod sint n"
      "x' = n - 1 \<longleftrightarrow> sint x' = sint n - 1" "x' = 1 \<longleftrightarrow> sint x' = 1"
      and unf': "\<forall>k. check_composite_loop x n r s k =
       (if x' = n - 1 then (Suc k, Some False)
        else if x' = 1 then (Suc k, Some True)
        else check_composite_loop x' n (r + 1) s (Suc k))"
    by (elim exE conjE)
  note unf = unf' [rule_format]
  have y0: "sint x ^ (2 ^ Suc 0) mod sint n = sint x'"
    by (simp add: x'(1) power2_eq_square)
  have "sint x' = 1 \<or> sint x' = sint n - 1"
    using "0.prems"(4) unfolding y0 .
  then show ?case
    unfolding unf y0 using x'(2,3) by auto
next
  case (Suc j)
  have lt: "r <s s"
    using Suc.prems(2) by (simp add: word_sless_alt)
  from check_composite_loop_step [OF assms(1) Suc.prems(1) lt] obtain x'
    where x': "sint x' = sint x * sint x mod sint n" "0 \<le> sint x'"
      "x' = n - 1 \<longleftrightarrow> sint x' = sint n - 1" "x' = 1 \<longleftrightarrow> sint x' = 1"
      "sint (r + 1) = sint r + 1"
      and unf': "\<forall>k. check_composite_loop x n r s k =
       (if x' = n - 1 then (Suc k, Some False)
        else if x' = 1 then (Suc k, Some True)
        else check_composite_loop x' n (r + 1) s (Suc k))"
    by (elim exE conjE)
  note unf = unf' [rule_format]
  have y0: "sint x ^ (2 ^ Suc 0) mod sint n = sint x'"
    by (simp add: x'(1) power2_eq_square)
  have sh: "sint x ^ (2 ^ Suc (Suc i)) mod sint n = sint x' ^ (2 ^ Suc i) mod sint n" for i
    using square_power_mod [of "sint x" "Suc i" "sint n"] by (simp only: x'(1) power_mod)
  have "sint x' \<noteq> 1 \<and> sint x' \<noteq> sint n - 1"
    using Suc.prems(3) [rule_format, of 0] unfolding y0 by simp
  then have go: "check_composite_loop x n r s k = check_composite_loop x' n (r + 1) s (Suc k)"
    unfolding unf using x'(3,4) by simp
  have p2: "int j < sint s - sint (r + 1)"
    using Suc.prems(2) unfolding x'(5) by simp
  have p3: "\<forall>i < j. sint x' ^ (2 ^ Suc i) mod sint n \<noteq> 1 \<and>
                  sint x' ^ (2 ^ Suc i) mod sint n \<noteq> sint n - 1"
    using Suc.prems(3) unfolding sh [symmetric] by auto
  have p4: "sint x' ^ (2 ^ Suc j) mod sint n = 1 \<or>
            sint x' ^ (2 ^ Suc j) mod sint n = sint n - 1"
    using Suc.prems(4) unfolding sh .
  show ?case
    unfolding go Suc.IH [OF x'(2) p2 p3 p4] sh by simp
qed

lemma check_composite_loop_all:
  assumes "3 \<le> sint n" "0 \<le> sint x" "nat (sint s - sint r) = c"
    and "\<forall>i < c. sint x ^ (2 ^ Suc i) mod sint n \<noteq> 1 \<and>
                  sint x ^ (2 ^ Suc i) mod sint n \<noteq> sint n - 1"
  shows "check_composite_loop x n r s k = (k + c, Some True)"
  using assms(2-4)
proof (induction c arbitrary: x r k)
  case 0
  then have "\<not> r <s s"
    by (simp add: word_sless_alt)
  then show ?case
    by (subst check_composite_loop.simps) simp
next
  case (Suc c)
  have lt: "r <s s"
    using Suc.prems(2) by (simp add: word_sless_alt)
  from check_composite_loop_step [OF assms(1) Suc.prems(1) lt] obtain x'
    where x': "sint x' = sint x * sint x mod sint n" "0 \<le> sint x'"
      "x' = n - 1 \<longleftrightarrow> sint x' = sint n - 1" "x' = 1 \<longleftrightarrow> sint x' = 1"
      "sint (r + 1) = sint r + 1"
      and unf': "\<forall>k. check_composite_loop x n r s k =
       (if x' = n - 1 then (Suc k, Some False)
        else if x' = 1 then (Suc k, Some True)
        else check_composite_loop x' n (r + 1) s (Suc k))"
    by (elim exE conjE)
  note unf = unf' [rule_format]
  have y0: "sint x ^ (2 ^ Suc 0) mod sint n = sint x'"
    by (simp add: x'(1) power2_eq_square)
  have sh: "sint x ^ (2 ^ Suc (Suc i)) mod sint n = sint x' ^ (2 ^ Suc i) mod sint n" for i
    using square_power_mod [of "sint x" "Suc i" "sint n"] by (simp only: x'(1) power_mod)
  have "sint x' \<noteq> 1 \<and> sint x' \<noteq> sint n - 1"
    using Suc.prems(3) [rule_format, of 0] unfolding y0 by simp
  then have go: "check_composite_loop x n r s k = check_composite_loop x' n (r + 1) s (Suc k)"
    unfolding unf using x'(3,4) by simp
  have p2: "nat (sint s - sint (r + 1)) = c"
    using Suc.prems(2) unfolding x'(5) by simp
  have p3: "\<forall>i < c. sint x' ^ (2 ^ Suc i) mod sint n \<noteq> 1 \<and>
                  sint x' ^ (2 ^ Suc i) mod sint n \<noteq> sint n - 1"
    using Suc.prems(3) unfolding sh [symmetric] by auto
  show ?case
    unfolding go Suc.IH [OF x'(2) p2 p3] by simp
qed

lemma modexp_nonpositive:
  assumes "sint b \<le> 0"
  shows "modexp a b m = Some 1"
proof -
  have "\<not> 0 <s b"
    using assms by (simp add: word_sless_alt)
  then have "modexp_loop 1 a b m 0 = (0, Some 1)"
    by (subst modexp_loop.simps) simp
  then show ?thesis
    by (simp add: modexp_def)
qed

lemma check_composite_run_cases:
  fixes a d n :: i64 and s :: i32
  assumes "3 \<le> sint n" "0 \<le> sint a" "1 \<le> sint s"
  defines "X \<equiv> \<lambda>r. sint a ^ (nat (sint d) * 2 ^ r) mod sint n"
  shows "X 0 = 1 \<or> X 0 = sint n - 1 \<Longrightarrow> check_composite_run a d n s = (0, Some False)"
    and "\<lbrakk>1 \<le> r; int r < sint s; \<forall>j < r. X j \<noteq> 1 \<and> X j \<noteq> sint n - 1;
          X r = 1 \<or> X r = sint n - 1\<rbrakk>
         \<Longrightarrow> check_composite_run a d n s = (r, Some (X r \<noteq> sint n - 1))"
    and "\<forall>j. int j < sint s \<longrightarrow> X j \<noteq> 1 \<and> X j \<noteq> sint n - 1
         \<Longrightarrow> check_composite_run a d n s = (nat (sint s) - 1, Some True)"
proof -
  let ?N = "sint n"
  have m1: "1 < ?N"
    using assms(1) by simp
  obtain x where x: "modexp a d n = Some x" and sx': "sint x = sint a ^ nat (sint d) mod ?N"
    using modexp_power [OF assms(2) m1, of d] by auto
  have sx: "sint x = X 0"
    unfolding sx' X_def by simp
  have x0: "0 \<le> sint x"
    using m1 unfolding sx' by simp
  have pw: "sint x ^ (2 ^ Suc i) mod ?N = X (Suc i)" for i
    unfolding sx' X_def by (rule power_power_mod [symmetric])
  have eq_n1: "x = n - 1 \<longleftrightarrow> X 0 = ?N - 1"
    using sint_minus_1 [OF assms(1)] sx by (metis sint_inj)
  have eq_1: "x = 1 \<longleftrightarrow> X 0 = 1"
    using sx by (metis sint_inj sint_1_64)
  have run: "check_composite_run a d n s =
      (if X 0 = 1 \<or> X 0 = ?N - 1 then (0, Some False) else check_composite_loop x n 1 s 0)"
    unfolding check_composite_run_def x eq_n1 [symmetric] eq_1 [symmetric] by simp
  show "check_composite_run a d n s = (0, Some False)" if "X 0 = 1 \<or> X 0 = ?N - 1"
    unfolding run using that by simp
  show "check_composite_run a d n s = (r, Some (X r \<noteq> ?N - 1))"
    if h: "1 \<le> r" "int r < sint s" "\<forall>j < r. X j \<noteq> 1 \<and> X j \<noteq> ?N - 1"
      "X r = 1 \<or> X r = ?N - 1"
  proof -
    obtain j where j: "r = Suc j"
      using h(1) by (cases r) auto
    have start: "\<not> (X 0 = 1 \<or> X 0 = ?N - 1)"
      using h(3) j by auto
    have p1: "int j < sint s - sint (1 :: i32)"
      using h(2) j by simp
    have p2: "\<forall>i < j. sint x ^ (2 ^ Suc i) mod ?N \<noteq> 1 \<and> sint x ^ (2 ^ Suc i) mod ?N \<noteq> ?N - 1"
      unfolding pw using h(3) j by auto
    have p3: "sint x ^ (2 ^ Suc j) mod ?N = 1 \<or> sint x ^ (2 ^ Suc j) mod ?N = ?N - 1"
      unfolding pw using h(4) j by simp
    show ?thesis
      unfolding run check_composite_loop_stop [OF assms(1) x0 p1 p2 p3] pw
      using start j by simp
  qed
  show "check_composite_run a d n s = (nat (sint s) - 1, Some True)"
    if h: "\<forall>j. int j < sint s \<longrightarrow> X j \<noteq> 1 \<and> X j \<noteq> ?N - 1"
  proof -
    have start: "\<not> (X 0 = 1 \<or> X 0 = ?N - 1)"
      using h [rule_format, of 0] assms(3) by simp
    have c: "nat (sint s - sint (1 :: i32)) = nat (sint s) - 1"
      by simp
    have p: "\<forall>i < nat (sint s) - 1. sint x ^ (2 ^ Suc i) mod ?N \<noteq> 1 \<and>
          sint x ^ (2 ^ Suc i) mod ?N \<noteq> ?N - 1"
      unfolding pw using h by auto
    show ?thesis
      unfolding run check_composite_loop_all [OF assms(1) x0 c p] using start by simp
  qed
qed

section \<open>Evaluation at the reference inputs\<close>

text \<open>
  For an odd \<open>n \<ge> 3\<close> the verdict of \<open>isPrime\<close> is computed in two steps: the
  decomposition on the machine words, and the Miller--Rabin condition of every base on
  unbounded integers.
\<close>

lemma isPrime_by_evaluation:
  assumes "decompose (n - 1) 0 = Some (d, s)" "odd (sint n)" "3 \<le> sint n"
    and "passes_bases [2, 3, 5, 7, 11, 13, 17] (sint d) (sint n) (nat (sint s)) = b"
  shows "isPrime n = Some b"
  using isPrime_eval [OF assms(1-3)] assms(4) by (simp add: test_bases_def)

lemma isPrime_17: "isPrime 17 = Some True"
proof -
  have d: "decompose (17 - 1) 0 = Some (1, 4)"
    by code_simp
  have e: "passes_bases [2, 3, 5, 7, 11, 13, 17] 1 17 4"
    by code_simp
  show ?thesis
    using e by (intro isPrime_by_evaluation [OF d]) simp_all
qed

lemma isPrime_7919: "isPrime 7919 = Some True"
proof -
  have d: "decompose (7919 - 1) 0 = Some (3959, 1)"
    by code_simp
  have e: "passes_bases [2, 3, 5, 7, 11, 13, 17] 3959 7919 1"
    by code_simp
  show ?thesis
    using e by (intro isPrime_by_evaluation [OF d]) simp_all
qed

lemma isPrime_1000000007: "isPrime 1000000007 = Some True"
proof -
  have d: "decompose (1000000007 - 1) 0 = Some (500000003, 1)"
    by code_simp
  have e: "passes_bases [2, 3, 5, 7, 11, 13, 17] 500000003 1000000007 1"
    by code_simp
  show ?thesis
    using e by (intro isPrime_by_evaluation [OF d]) simp_all
qed

lemma isPrime_341: "isPrime 341 = Some False"
proof -
  have d: "decompose (341 - 1) 0 = Some (85, 2)"
    by code_simp
  have e: "\<not> passes_bases [2, 3, 5, 7, 11, 13, 17] 85 341 2"
    by code_simp
  show ?thesis
    using e by (intro isPrime_by_evaluation [OF d]) simp_all
qed

lemma isPrime_561: "isPrime 561 = Some False"
proof -
  have d: "decompose (561 - 1) 0 = Some (35, 4)"
    by code_simp
  have e: "\<not> passes_bases [2, 3, 5, 7, 11, 13, 17] 35 561 4"
    by code_simp
  show ?thesis
    using e by (intro isPrime_by_evaluation [OF d]) simp_all
qed

lemma isPrime_645: "isPrime 645 = Some False"
proof -
  have d: "decompose (645 - 1) 0 = Some (161, 2)"
    by code_simp
  have e: "\<not> passes_bases [2, 3, 5, 7, 11, 13, 17] 161 645 2"
    by code_simp
  show ?thesis
    using e by (intro isPrime_by_evaluation [OF d]) simp_all
qed

lemma isPrime_1105: "isPrime 1105 = Some False"
proof -
  have d: "decompose (1105 - 1) 0 = Some (69, 4)"
    by code_simp
  have e: "\<not> passes_bases [2, 3, 5, 7, 11, 13, 17] 69 1105 4"
    by code_simp
  show ?thesis
    using e by (intro isPrime_by_evaluation [OF d]) simp_all
qed

lemma isPrime_2465: "isPrime 2465 = Some False"
proof -
  have d: "decompose (2465 - 1) 0 = Some (77, 5)"
    by code_simp
  have e: "\<not> passes_bases [2, 3, 5, 7, 11, 13, 17] 77 2465 5"
    by code_simp
  show ?thesis
    using e by (intro isPrime_by_evaluation [OF d]) simp_all
qed

lemma isPrime_41041: "isPrime 41041 = Some False"
proof -
  have d: "decompose (41041 - 1) 0 = Some (2565, 4)"
    by code_simp
  have e: "\<not> passes_bases [2, 3, 5, 7, 11, 13, 17] 2565 41041 4"
    by code_simp
  show ?thesis
    using e by (intro isPrime_by_evaluation [OF d]) simp_all
qed

lemma isPrime_341550071728321: "isPrime 341550071728321 = Some True"
proof -
  have d: "decompose (341550071728321 - 1) 0 = Some (5336719870755, 6)"
    by code_simp
  have e: "passes_bases [2, 3, 5, 7, 11, 13, 17] 5336719870755 341550071728321 6"
    by code_simp
  show ?thesis
    using e by (intro isPrime_by_evaluation [OF d]) simp_all
qed

lemma d_341: "decompose (341 - 1) 0 = Some (85, 2)"
  by code_simp

lemma cc_341: "check_composite 2 85 341 2 = Some True"
proof -
  have "\<not> strong_probable_prime 2 85 341 2"
    using spp_eval_eq [of 341 85 2 2] by (simp add: spp_eval_def pow_mod_loop_eq eval_nat_numeral)
  then show ?thesis
    using check_composite_correct [of 341 2 2 85] by simp
qed

lemma cc_9: "check_composite 2 1 9 3 = Some True"
  by code_simp

lemma cc_2047: "check_composite 2 1023 2047 1 = Some False" "check_composite 3 1023 2047 1 = Some True"
  by code_simp+

lemma cc_5: "check_composite 2 1 5 2 = Some False" "check_composite 3 1 5 2 = Some False"
  by code_simp+

section \<open>The claims\<close>

text \<open>
  Claim C1 says that \<open>isPrime n\<close> is true if and only if \<open>n\<close> is prime, for every
  64-bit signed \<open>n\<close>. The code accepts every prime (\<open>isPrime_accepts_primes\<close>), but the
  seven bases 2, 3, 5, 7, 11, 13, 17 do not decide the whole 64-bit range:
  \<open>341550071728321 = 10670053 * 32010157\<close> is a strong pseudoprime to all seven, and
  \<open>isPrime\<close> returns true on it.
\<close>

theorem isPrime_strong_pseudoprime:
  "isPrime 341550071728321 = Some True \<and> composite_nat 341550071728321"
proof
  show "isPrime 341550071728321 = Some True"
    by (rule isPrime_341550071728321)
  have "(341550071728321 :: nat) = 10670053 * 32010157"
    by simp
  then have "(10670053 :: nat) dvd 341550071728321"
    by (rule dvdI)
  have "(10670053 :: nat) \<in> {2..<341550071728321}"
    by simp
  from this \<open>10670053 dvd 341550071728321\<close> show "composite_nat 341550071728321"
    unfolding composite_nat_def by (rule rev_bexI)
qed

text \<open>
  Claim C2. Under the preconditions of the witness evaluator (\<open>n\<close> odd, \<open>n \<ge> 3\<close>,
  \<open>2 \<le> a < n\<close>, \<open>d\<close> odd, \<open>s \<ge> 1\<close>, \<open>n - 1 = d * 2 ^ s\<close>), if
  \<open>check_composite a d n s\<close> returns true then \<open>n\<close> is composite.
\<close>

theorem check_composite_sound:
  assumes "odd (sint n)" "3 \<le> sint n" "2 \<le> sint a" "sint a < sint n"
    and "odd (sint d)" "1 \<le> sint s" "sint n - 1 = sint d * 2 ^ nat (sint s)"
    and "check_composite a d n s = Some True"
  shows "composite_nat (nat (sint n))"
proof -
  have a0: "0 \<le> sint a" "0 < sint a"
    using assms(3) by simp_all
  have "\<not> strong_probable_prime (sint a) (nat (sint d)) (sint n) (nat (sint s))"
    using check_composite_correct [OF assms(2) a0(1) assms(6)] assms(8) by simp
  then have "\<not> prime_nat (nat (sint n))"
    using prime_strong_probable [OF _ a0(2) assms(4) assms(7)] by blast
  moreover have "1 < nat (sint n)"
    using assms(2) by simp
  ultimately show ?thesis
    by (simp add: composite_iff_not_prime)
qed

text \<open>
  The theorem at \<open>n = 9\<close>, \<open>a = 2\<close>, \<open>d = 1\<close>, \<open>s = 3\<close>: the evaluator returns true
  and 9 is composite.
\<close>

theorem check_composite_sound_witness:
  "check_composite 2 1 9 3 = Some True \<and> composite_nat (nat (sint (9 :: i64)))"
  using check_composite_sound [of 9 2 1 3] cc_9 by simp

text \<open>
  Claim C3. Write \<open>X r\<close> for \<open>a ^ (d * 2 ^ r) mod n\<close>, the value after \<open>r\<close> squarings of
  \<open>a ^ d mod n\<close>, and take the preconditions \<open>n\<close> odd, \<open>n \<ge> 3\<close>, \<open>2 \<le> a < n\<close>, \<open>d\<close> odd,
  \<open>s \<ge> 1\<close>. For \<open>d > 0\<close> the evaluator always returns a verdict, and it returns false if
  and only if \<open>X 0\<close> is 1 or \<open>n - 1\<close>, or some \<open>X r\<close> with \<open>1 \<le> r < s\<close> is \<open>n - 1\<close> and no
  earlier squaring gave 1. The run itself, verdict and number of squarings performed:
  \<^item> when \<open>X 0\<close> is 1 or \<open>n - 1\<close>: false, with no squaring;
  \<^item> when the first \<open>X r\<close> that is 1 or \<open>n - 1\<close> comes at \<open>1 \<le> r < s\<close> and is \<open>n - 1\<close>:
    false, after exactly \<open>r\<close> squarings;
  \<^item> when it is 1: true, after exactly \<open>r\<close> squarings, so at once, whatever the
    \<open>s - 1\<close> squarings allowed;
  \<^item> when no \<open>X r\<close> with \<open>r < s\<close> is 1 or \<open>n - 1\<close>: true, after all \<open>s - 1\<close> squarings.
  For a negative \<open>d\<close>, where \<open>a ^ d\<close> is no integer, \<open>modexp\<close> enters no loop and returns 1,
  and the evaluator returns false with no squaring.
\<close>

theorem check_composite_verdict:
  fixes a d n :: i64 and s :: i32
  assumes "odd (sint n)" "3 \<le> sint n" "2 \<le> sint a" "sint a < sint n"
    and "odd (sint d)" "1 \<le> sint s"
  defines "X \<equiv> \<lambda>r. sint a ^ (nat (sint d) * 2 ^ r) mod sint n"
  shows "(sint d < 0 \<longrightarrow> check_composite_run a d n s = (0, Some False)) \<and>
    (0 < sint d \<longrightarrow>
      (check_composite a d n s = Some False \<or> check_composite a d n s = Some True) \<and>
      (check_composite a d n s = Some False \<longleftrightarrow>
         X 0 = 1 \<or> X 0 = sint n - 1 \<or>
         (\<exists>r. 1 \<le> r \<and> int r < sint s \<and> X r = sint n - 1 \<and>
              (\<forall>j. 1 \<le> j \<and> j < r \<longrightarrow> X j \<noteq> 1))) \<and>
      (X 0 = 1 \<or> X 0 = sint n - 1 \<longrightarrow> check_composite_run a d n s = (0, Some False)) \<and>
      (\<forall>r. 1 \<le> r \<and> int r < sint s \<and> (\<forall>j < r. X j \<noteq> 1 \<and> X j \<noteq> sint n - 1) \<and>
           X r = sint n - 1
         \<longrightarrow> check_composite_run a d n s = (r, Some False)) \<and>
      (\<forall>r. 1 \<le> r \<and> int r < sint s \<and> (\<forall>j < r. X j \<noteq> 1 \<and> X j \<noteq> sint n - 1) \<and>
           X r = 1
         \<longrightarrow> check_composite_run a d n s = (r, Some True)) \<and>
      ((\<forall>j. int j < sint s \<longrightarrow> X j \<noteq> 1 \<and> X j \<noteq> sint n - 1)
         \<longrightarrow> check_composite_run a d n s = (nat (sint s) - 1, Some True)))"
proof -
  let ?N = "sint n"
  have a0: "0 \<le> sint a"
    using assms(3) by simp
  have N1: "1 < ?N"
    using assms(2) by simp
  have ne: "(1 :: int) \<noteq> ?N - 1"
    using assms(2) by simp
  have Xr: "sint a ^ (nat (sint d) * 2 ^ r) mod ?N = X r" for r
    by (simp add: X_def)
  note rc = check_composite_run_cases [OF assms(2) a0 assms(6), where d = d, unfolded Xr]
  have neg: "check_composite_run a d n s = (0, Some False)" if "sint d < 0"
  proof -
    have "modexp a d n = Some 1"
      using that by (intro modexp_nonpositive) simp
    then show ?thesis
      by (simp add: check_composite_run_def)
  qed
  have cc: "check_composite a d n s
      = Some (\<not> (X 0 = 1 \<or> (\<exists>r. int r < sint s \<and> X r = ?N - 1)))"
  proof -
    have "(\<exists>r < nat (sint s). X r = ?N - 1) \<longleftrightarrow> (\<exists>r. int r < sint s \<and> X r = ?N - 1)"
      by (auto simp: zless_nat_eq_int_zless)
    then show ?thesis
      unfolding check_composite_correct [OF assms(2) a0 assms(6)] strong_probable_prime_def X_def
      by simp
  qed
  have stays: "X r = 1" if "X j = 1" "j \<le> r" for j r
    using that N1 unfolding X_def by (rule power_chain_one)
  have c1: "check_composite a d n s = Some False \<or> check_composite a d n s = Some True"
    unfolding cc by auto
  have c2: "check_composite a d n s = Some False \<longleftrightarrow>
       X 0 = 1 \<or> X 0 = ?N - 1 \<or>
       (\<exists>r. 1 \<le> r \<and> int r < sint s \<and> X r = ?N - 1 \<and> (\<forall>j. 1 \<le> j \<and> j < r \<longrightarrow> X j \<noteq> 1))"
    (is "_ \<longleftrightarrow> ?R")
  proof -
    have eq: "(X 0 = 1 \<or> (\<exists>r. int r < sint s \<and> X r = ?N - 1)) \<longleftrightarrow> ?R"
    proof
      assume "X 0 = 1 \<or> (\<exists>r. int r < sint s \<and> X r = ?N - 1)"
      then show ?R
      proof
        assume "X 0 = 1"
        then show ?R ..
      next
        assume "\<exists>r. int r < sint s \<and> X r = ?N - 1"
        then obtain r where r: "int r < sint s" "X r = ?N - 1"
          by blast
        show ?R
        proof (cases "r = 0")
          case True
          then show ?thesis using r(2) by simp
        next
          case False
          have "X j \<noteq> 1" if "j < r" for j
          proof
            assume "X j = 1"
            then have "X r = 1"
              using that by (intro stays [of j r]) simp_all
            then show False
              using r(2) ne by simp
          qed
          then show ?thesis
            using False r by (intro disjI2 exI [of _ r]) simp
        qed
      qed
    next
      assume ?R
      then show "X 0 = 1 \<or> (\<exists>r. int r < sint s \<and> X r = ?N - 1)"
        using assms(6) by (elim disjE exE conjE) (auto intro: exI [of _ 0])
    qed
    have "check_composite a d n s = Some False \<longleftrightarrow>
        (X 0 = 1 \<or> (\<exists>r. int r < sint s \<and> X r = ?N - 1))"
      unfolding cc by simp
    also note eq
    finally show ?thesis .
  qed
  have c3: "check_composite_run a d n s = (0, Some False)" if "X 0 = 1 \<or> X 0 = ?N - 1"
    using that by (rule rc(1))
  have c4: "check_composite_run a d n s = (r, Some False)"
    if "1 \<le> r \<and> int r < sint s \<and> (\<forall>j < r. X j \<noteq> 1 \<and> X j \<noteq> ?N - 1) \<and> X r = ?N - 1" for r
    using rc(2) [of r] that by simp
  have c5: "check_composite_run a d n s = (r, Some True)"
    if "1 \<le> r \<and> int r < sint s \<and> (\<forall>j < r. X j \<noteq> 1 \<and> X j \<noteq> ?N - 1) \<and> X r = 1" for r
    using rc(2) [of r] that ne by simp
  have c6: "check_composite_run a d n s = (nat (sint s) - 1, Some True)"
    if "\<forall>j. int j < sint s \<longrightarrow> X j \<noteq> 1 \<and> X j \<noteq> ?N - 1"
    using that by (rule rc(3))
  show ?thesis
    using neg c1 c2 c3 c4 c5 c6 by (intro conjI impI allI)
qed

text \<open>
  The theorem on each of its cases: base 2 for the Carmichael number \<open>1729 = 1 + 27 * 2 ^ 6\<close>,
  where the chain is 645, 1065, 1 and the evaluator returns true after 2 of the 5
  squarings allowed; \<open>n = 17\<close>, where the second squaring gives 16; \<open>n = 9\<close>, where the
  squarings 4 and 7 never reach 1 or 8; \<open>n = 7\<close>, where \<open>2 ^ 3 mod 7\<close> is 1; and the
  exponent \<open>- 3\<close>.
\<close>

theorem check_composite_verdict_witness:
  "check_composite_run 2 27 1729 6 = (2, Some True) \<and>
   check_composite_run 2 1 17 4 = (2, Some False) \<and>
   check_composite_run 2 1 9 3 = (2, Some True) \<and>
   check_composite_run 2 3 7 1 = (0, Some False) \<and>
   check_composite_run 2 (- 3) 9 3 = (0, Some False)"
proof (intro conjI)
  have h: "odd (sint (1729 :: i64))" "3 \<le> sint (1729 :: i64)" "2 \<le> sint (2 :: i64)"
    "sint (2 :: i64) < sint (1729 :: i64)" "odd (sint (27 :: i64))" "1 \<le> sint (6 :: i32)"
    by simp_all
  have pos: "0 < sint (27 :: i64)"
    by simp
  note m = check_composite_verdict [OF h, THEN conjunct2, THEN mp, OF pos]
  note c = m [THEN conjunct2, THEN conjunct2, THEN conjunct2, THEN conjunct2, THEN conjunct1,
      rule_format, of 2]
  have e: "(2 :: int) ^ (27 * 2 ^ j) mod 1729 \<noteq> 1 \<and> (2 :: int) ^ (27 * 2 ^ j) mod 1729 \<noteq> 1728"
    if "j < 2" for j :: nat
  proof -
    from that have "j = 0 \<or> j = 1" by auto
    then show ?thesis by auto
  qed
  show "check_composite_run 2 27 1729 6 = (2, Some True)"
    by (rule c) (simp add: e)
next
  have h: "odd (sint (17 :: i64))" "3 \<le> sint (17 :: i64)" "2 \<le> sint (2 :: i64)"
    "sint (2 :: i64) < sint (17 :: i64)" "odd (sint (1 :: i64))" "1 \<le> sint (4 :: i32)"
    by simp_all
  have pos: "0 < sint (1 :: i64)"
    by simp
  note m = check_composite_verdict [OF h, THEN conjunct2, THEN mp, OF pos]
  note c = m [THEN conjunct2, THEN conjunct2, THEN conjunct2, THEN conjunct1, rule_format, of 2]
  have e: "(2 :: int) ^ (2 ^ j) mod 17 \<noteq> 1 \<and> (2 :: int) ^ (2 ^ j) mod 17 \<noteq> 16"
    if "j < 2" for j :: nat
  proof -
    from that have "j = 0 \<or> j = 1" by auto
    then show ?thesis by auto
  qed
  show "check_composite_run 2 1 17 4 = (2, Some False)"
    by (rule c) (simp add: e)
next
  have h: "odd (sint (9 :: i64))" "3 \<le> sint (9 :: i64)" "2 \<le> sint (2 :: i64)"
    "sint (2 :: i64) < sint (9 :: i64)" "odd (sint (1 :: i64))" "1 \<le> sint (3 :: i32)"
    by simp_all
  have pos: "0 < sint (1 :: i64)"
    by simp
  note m = check_composite_verdict [OF h, THEN conjunct2, THEN mp, OF pos]
  note c = m [THEN conjunct2, THEN conjunct2, THEN conjunct2, THEN conjunct2, THEN conjunct2,
      THEN mp]
  have e: "(2 :: int) ^ (2 ^ j) mod 9 \<noteq> 1 \<and> (2 :: int) ^ (2 ^ j) mod 9 \<noteq> 8"
    if "int j < 3" for j :: nat
  proof -
    from that have "j = 0 \<or> j = 1 \<or> j = 2" by auto
    then show ?thesis by auto
  qed
  have "check_composite_run 2 1 9 3 = (nat (sint (3 :: i32)) - 1, Some True)"
    by (rule c) (simp add: e)
  then show "check_composite_run 2 1 9 3 = (2, Some True)"
    by simp
next
  have h: "odd (sint (7 :: i64))" "3 \<le> sint (7 :: i64)" "2 \<le> sint (2 :: i64)"
    "sint (2 :: i64) < sint (7 :: i64)" "odd (sint (3 :: i64))" "1 \<le> sint (1 :: i32)"
    by simp_all
  have pos: "0 < sint (3 :: i64)"
    by simp
  note m = check_composite_verdict [OF h, THEN conjunct2, THEN mp, OF pos]
  note c = m [THEN conjunct2, THEN conjunct2, THEN conjunct1, THEN mp]
  show "check_composite_run 2 3 7 1 = (0, Some False)"
    by (rule c) simp
next
  have h: "odd (sint (9 :: i64))" "3 \<le> sint (9 :: i64)" "2 \<le> sint (2 :: i64)"
    "sint (2 :: i64) < sint (9 :: i64)" "odd (sint (- 3 :: i64))" "1 \<le> sint (3 :: i32)"
    by simp_all
  have neg: "sint (- 3 :: i64) < 0"
    by simp
  show "check_composite_run 2 (- 3) 9 3 = (0, Some False)"
    by (rule check_composite_verdict [OF h, THEN conjunct1, THEN mp, OF neg])
qed

text \<open>
  Claim C4. For every odd \<open>n \<ge> 3\<close>, \<open>isPrime\<close> decomposes \<open>n - 1\<close> as \<open>d * 2 ^ s\<close>
  with \<open>d\<close> odd and \<open>s \<ge> 1\<close>, then runs over the bases 2, 3, 5, 7, 11, 13, 17. It
  returns true exactly when no base below \<open>n\<close> reports a witness, and false exactly
  when one does. The bases on which the witness evaluator is called, in the order of
  the calls, are
  \<^item> when no base below \<open>n\<close> reports a witness: the bases below \<open>n\<close>, in the order of the
    list (the bases \<open>a \<ge> n\<close> are skipped);
  \<^item> when \<open>a\<close> is the first base below \<open>n\<close> that reports a witness: the bases below
    \<open>n\<close> that come before \<open>a\<close> in the list, then \<open>a\<close>, and no base after it.
\<close>

theorem isPrime_odd_steps:
  assumes "odd (sint n)" "3 \<le> sint n"
  shows "\<exists>d s. decompose (n - 1) 0 = Some (d, s) \<and> odd (sint d) \<and> 1 \<le> sint s \<and>
      sint n - 1 = sint d * 2 ^ nat (sint s) \<and>
      isPrime_run n = bases_loop [2, 3, 5, 7, 11, 13, 17] d n s [] \<and>
      (isPrime n = Some True \<or> isPrime n = Some False) \<and>
      (isPrime n = Some True \<longleftrightarrow>
         (\<forall>a\<in>set [2, 3, 5, 7, 11, 13, 17]. a <s n \<longrightarrow> check_composite a d n s = Some False)) \<and>
      (isPrime n = Some False \<longleftrightarrow>
         (\<exists>a\<in>set [2, 3, 5, 7, 11, 13, 17]. a <s n \<and> check_composite a d n s = Some True)) \<and>
      ((\<forall>a\<in>set [2, 3, 5, 7, 11, 13, 17]. a <s n \<longrightarrow> check_composite a d n s = Some False)
         \<longrightarrow> isPrime_tested n = filter (\<lambda>a. a <s n) [2, 3, 5, 7, 11, 13, 17]) \<and>
      (\<forall>pre a post.
         [2, 3, 5, 7, 11, 13, 17] = pre @ a # post \<and> a <s n \<and>
         check_composite a d n s = Some True \<and>
         (\<forall>b\<in>set pre. b <s n \<longrightarrow> check_composite b d n s = Some False)
         \<longrightarrow> isPrime n = Some False \<and> isPrime_tested n = filter (\<lambda>b. b <s n) pre @ [a])"
proof -
  from isPrime_odd_correct [OF assms] obtain d :: i64 and s :: i32
    where r: "decompose (n - 1) 0 = Some (d, s)" "odd (sint d)" "1 \<le> sint s"
      "sint n - 1 = sint d * 2 ^ nat (sint s)"
      "isPrime_run n = bases_loop test_bases d n s []"
    by (elim exE conjE)
  have tot: "\<forall>a\<in>set test_bases. \<exists>w. check_composite a d n s = Some w"
  proof
    fix a assume "a \<in> set test_bases"
    then have "0 \<le> sint a"
      using test_bases_nonneg by blast
    from check_composite_correct [OF assms(2) this r(3), of d]
    show "\<exists>w. check_composite a d n s = Some w"
      by blast
  qed
  have ip: "isPrime n
      = Some (\<forall>a\<in>set test_bases. a <s n \<longrightarrow> check_composite a d n s = Some False)"
    unfolding isPrime_def r(5) by (rule bases_loop_verdict [OF tot])
  have t: "isPrime n = Some True \<longleftrightarrow>
      (\<forall>a\<in>set test_bases. a <s n \<longrightarrow> check_composite a d n s = Some False)"
    unfolding ip by simp
  have f: "isPrime n = Some False \<longleftrightarrow>
      (\<exists>a\<in>set test_bases. a <s n \<and> check_composite a d n s = Some True)"
  proof
    assume "isPrime n = Some False"
    then obtain a where a: "a \<in> set test_bases" "a <s n" "check_composite a d n s \<noteq> Some False"
      unfolding ip by auto
    moreover obtain w where "check_composite a d n s = Some w"
      using tot a(1) by blast
    ultimately have "check_composite a d n s = Some True"
      by (cases w) simp_all
    with a show "\<exists>a\<in>set test_bases. a <s n \<and> check_composite a d n s = Some True"
      by blast
  next
    assume "\<exists>a\<in>set test_bases. a <s n \<and> check_composite a d n s = Some True"
    then show "isPrime n = Some False"
      unfolding ip by force
  qed
  have tf: "isPrime n = Some True \<or> isPrime n = Some False"
    unfolding ip by auto
  have allp: "(\<forall>a\<in>set test_bases. a <s n \<longrightarrow> check_composite a d n s = Some False)
      \<longrightarrow> isPrime_tested n = filter (\<lambda>a. a <s n) test_bases"
  proof
    assume "\<forall>a\<in>set test_bases. a <s n \<longrightarrow> check_composite a d n s = Some False"
    then show "isPrime_tested n = filter (\<lambda>a. a <s n) test_bases"
      unfolding isPrime_tested_def r(5) by (simp add: bases_loop_all_pass)
  qed
  have sc: "\<forall>pre a post.
         test_bases = pre @ a # post \<and> a <s n \<and>
         check_composite a d n s = Some True \<and>
         (\<forall>b\<in>set pre. b <s n \<longrightarrow> check_composite b d n s = Some False)
         \<longrightarrow> isPrime n = Some False \<and> isPrime_tested n = filter (\<lambda>b. b <s n) pre @ [a]"
  proof (intro allI impI)
    fix pre a post
    assume h: "test_bases = pre @ a # post \<and> a <s n \<and>
         check_composite a d n s = Some True \<and>
         (\<forall>b\<in>set pre. b <s n \<longrightarrow> check_composite b d n s = Some False)"
    have "bases_loop (pre @ a # post) d n s [] = ([] @ filter (\<lambda>b. b <s n) pre @ [a], Some False)"
      using h by (intro bases_loop_first_witness) simp_all
    then have "isPrime_run n = (filter (\<lambda>b. b <s n) pre @ [a], Some False)"
      using h unfolding r(5) by simp
    then show "isPrime n = Some False \<and> isPrime_tested n = filter (\<lambda>b. b <s n) pre @ [a]"
      by (simp add: isPrime_def isPrime_tested_def)
  qed
  have "decompose (n - 1) 0 = Some (d, s) \<and> odd (sint d) \<and> 1 \<le> sint s \<and>
      sint n - 1 = sint d * 2 ^ nat (sint s) \<and>
      isPrime_run n = bases_loop test_bases d n s [] \<and>
      (isPrime n = Some True \<or> isPrime n = Some False) \<and>
      (isPrime n = Some True \<longleftrightarrow>
         (\<forall>a\<in>set test_bases. a <s n \<longrightarrow> check_composite a d n s = Some False)) \<and>
      (isPrime n = Some False \<longleftrightarrow>
         (\<exists>a\<in>set test_bases. a <s n \<and> check_composite a d n s = Some True)) \<and>
      ((\<forall>a\<in>set test_bases. a <s n \<longrightarrow> check_composite a d n s = Some False)
         \<longrightarrow> isPrime_tested n = filter (\<lambda>a. a <s n) test_bases) \<and>
      (\<forall>pre a post.
         test_bases = pre @ a # post \<and> a <s n \<and>
         check_composite a d n s = Some True \<and>
         (\<forall>b\<in>set pre. b <s n \<longrightarrow> check_composite b d n s = Some False)
         \<longrightarrow> isPrime n = Some False \<and> isPrime_tested n = filter (\<lambda>b. b <s n) pre @ [a])"
    using r(1-5) tf t f allp sc by (intro conjI)
  then show ?thesis
    unfolding test_bases_def by (intro exI [of _ d] exI [of _ s])
qed

text \<open>
  The theorem at \<open>n = 2047 = 23 * 89\<close>, a strong pseudoprime to base 2 that base 3
  rejects: the bases tested are 2 and 3, and none of 5, 7, 11, 13, 17. And at \<open>n = 5\<close>,
  where the bases 5 to 17 are skipped and the bases tested are 2 and 3.
\<close>

theorem isPrime_odd_steps_witness:
  "decompose (2047 - 1) 0 = Some (1023, 1) \<and> isPrime 2047 = Some False \<and>
   isPrime_tested 2047 = [2, 3] \<and>
   decompose (5 - 1) 0 = Some (1, 2) \<and> isPrime 5 = Some True \<and> isPrime_tested 5 = [2, 3]"
proof -
  have h: "odd (sint (2047 :: i64))" "3 \<le> sint (2047 :: i64)"
    by simp_all
  have d: "decompose (2047 - 1) 0 = Some (1023, 1)"
    by code_simp
  from isPrime_odd_steps [OF h] obtain d' s'
    where r: "decompose (2047 - 1) 0 = Some (d', s')"
      and sc: "\<forall>pre a post.
         [2, 3, 5, 7, 11, 13, 17] = pre @ a # post \<and> a <s 2047 \<and>
         check_composite a d' 2047 s' = Some True \<and>
         (\<forall>b\<in>set pre. b <s 2047 \<longrightarrow> check_composite b d' 2047 s' = Some False)
         \<longrightarrow> isPrime 2047 = Some False \<and> isPrime_tested 2047 = filter (\<lambda>b. b <s 2047) pre @ [a]"
    by (elim exE conjE)
  have ds: "d' = 1023" "s' = 1"
    using r d by simp_all
  have "isPrime 2047 = Some False \<and> isPrime_tested 2047 = filter (\<lambda>b. b <s 2047) [2] @ [3]"
    by (rule sc [unfolded ds, rule_format, of "[2]" 3 "[5, 7, 11, 13, 17]"]) (simp add: cc_2047)
  then have a: "isPrime 2047 = Some False \<and> isPrime_tested 2047 = [2, 3]"
    by simp
  have h5: "odd (sint (5 :: i64))" "3 \<le> sint (5 :: i64)"
    by simp_all
  have d5: "decompose (5 - 1) 0 = Some (1, 2)"
    by code_simp
  from isPrime_odd_steps [OF h5] obtain d'' s''
    where r5: "decompose (5 - 1) 0 = Some (d'', s'')"
      and t5: "isPrime 5 = Some True \<longleftrightarrow>
         (\<forall>a\<in>set [2, 3, 5, 7, 11, 13, 17]. a <s 5 \<longrightarrow> check_composite a d'' 5 s'' = Some False)"
      and all5: "(\<forall>a\<in>set [2, 3, 5, 7, 11, 13, 17]. a <s 5 \<longrightarrow> check_composite a d'' 5 s'' = Some False)
         \<longrightarrow> isPrime_tested 5 = filter (\<lambda>a. a <s 5) [2, 3, 5, 7, 11, 13, 17]"
    by (elim exE conjE)
  have ds5: "d'' = 1" "s'' = 2"
    using r5 d5 by simp_all
  have p5: "\<forall>a\<in>set [2, 3, 5, 7, 11, 13, 17 :: i64]. a <s 5 \<longrightarrow> check_composite a 1 5 2 = Some False"
    by (simp add: cc_5)
  have b: "isPrime 5 = Some True" "isPrime_tested 5 = [2, 3]"
    using t5 all5 p5 unfolding ds5 by simp_all
  show ?thesis
    using d a d5 b by (intro conjI) simp_all
qed

text \<open>
  Claim C5. \<open>isPrime\<close> returns false for every \<open>n < 2\<close>, negative \<open>n\<close> included, true
  for 2, and false for every even \<open>n > 2\<close>.
\<close>

theorem isPrime_trivial_cases:
  "(sint n < 2 \<longrightarrow> isPrime n = Some False) \<and>
   isPrime 2 = Some True \<and>
   (even (sint n) \<and> 2 < sint n \<longrightarrow> isPrime n = Some False)"
proof (intro conjI impI)
  assume "sint n < 2"
  then show "isPrime n = Some False"
    by (simp add: isPrime_def isPrime_run_def word_sless_alt)
next
  have "word_srem (2 :: i64) 2 = 0"
    by (simp add: word_srem_2)
  then show "isPrime 2 = Some True"
    by (simp add: isPrime_def isPrime_run_def)
next
  assume a: "even (sint n) \<and> 2 < sint n"
  then have "\<not> n <s 2" "word_srem n 2 = 0" "n \<noteq> 2"
    by (auto simp: word_sless_alt word_srem_2)
  then show "isPrime n = Some False"
    by (simp add: isPrime_def isPrime_run_def)
qed

text \<open>
  The theorem at \<open>n = - 5\<close>, \<open>n = 1\<close> and \<open>n = 10\<close>.
\<close>

theorem isPrime_trivial_cases_witness:
  "isPrime (- 5) = Some False \<and> isPrime 1 = Some False \<and> isPrime 2 = Some True \<and>
   isPrime 10 = Some False"
  using isPrime_trivial_cases [of "- 5"] isPrime_trivial_cases [of 1] isPrime_trivial_cases [of 10]
  by simp

text \<open>
  Claim C6. For \<open>0 \<le> a < m\<close> and \<open>0 \<le> b < m\<close> (so \<open>1 \<le> m \<le> 2 ^ 63 - 1\<close>),
  \<open>mulmod a b m\<close> returns \<open>(a * b) mod m\<close> of the exact product, a value in \<open>[0, m)\<close>;
  the 128-bit product \<open>res\<close> is the exact product, and the 128-bit remainder is the
  value returned, so neither the multiplication nor the cast back to 64 bits wraps.
\<close>

theorem mulmod_exact:
  assumes "0 \<le> sint a" "sint a < sint m" "0 \<le> sint b" "sint b < sint m"
  shows "\<exists>r. mulmod a b m = Some r \<and>
           sint r = (sint a * sint b) mod sint m \<and>
           0 \<le> sint r \<and> sint r < sint m \<and>
           sint (mulmod_res a b) = sint a * sint b \<and>
           sint (word_srem (mulmod_res a b) (scast m :: i128)) = sint r"
proof -
  have mpos: "0 < sint m"
    using assms(1,2) by simp
  then have m0: "m \<noteq> 0"
    by auto
  from mulmod_nonneg [OF mpos assms(1) assms(3)] obtain r
    where r: "mulmod a b m = Some r" "sint r = (sint a * sint b) mod sint m"
    by blast
  have "0 \<le> sint a * sint b"
    using assms(1,3) by simp
  then have "sint (word_srem (mulmod_res a b) (scast m :: i128)) = (sint a * sint b) mod sint m"
    using mpos by (simp add: sint_word_srem_128 [OF m0] sint_mulmod_res smod_nonneg)
  moreover have "0 \<le> sint r" "sint r < sint m"
    using mpos by (simp_all add: r(2))
  ultimately show ?thesis
    using r by (simp add: sint_mulmod_res)
qed

text \<open>
  The theorem at \<open>a = 2 ^ 62\<close>, \<open>b = 2 ^ 63 - 2\<close>, \<open>m = 2 ^ 63 - 1\<close>, whose product
  needs 125 bits.
\<close>

theorem mulmod_exact_witness:
  "\<exists>r. mulmod 4611686018427387904 9223372036854775806 9223372036854775807 = Some r \<and>
       sint r = (4611686018427387904 * 9223372036854775806) mod 9223372036854775807 \<and>
       0 \<le> sint r \<and> sint r < 9223372036854775807 \<and>
       sint (mulmod_res 4611686018427387904 9223372036854775806)
         = 4611686018427387904 * 9223372036854775806"
  using mulmod_exact [of 4611686018427387904 9223372036854775807 9223372036854775806]
  by auto

text \<open>
  Claim C7 says that \<open>modexp a e m\<close> is \<open>a ^ e mod m\<close>, a value in \<open>[0, m)\<close>, for every
  \<open>a \<ge> 0\<close>, \<open>e \<ge> 0\<close> and \<open>m \<ge> 1\<close>, the modulus 1 included. For a modulus above
  1, or a positive exponent, this is \<open>modexp_power\<close> and \<open>modexp_correct\<close>. With the
  exponent 0 the loop is not entered and the initial \<open>result = 1\<close> is returned
  unreduced: for the modulus 1 the code returns 1, which is neither \<open>a ^ 0 mod 1 = 0\<close>
  nor a value in \<open>[0, 1)\<close>.
\<close>

theorem modexp_modulus_one: "modexp 5 0 1 = Some 1 \<and> (5 :: int) ^ 0 mod 1 = 0"
  by (simp add: modexp_def modexp_loop.simps)

text \<open>
  Claim C8. For \<open>a \<ge> 0\<close> and a modulus \<open>m > 1\<close>, \<open>modexp a 0 m\<close> is 1 and
  \<open>modexp a 1 m\<close> is \<open>a mod m\<close>.
\<close>

theorem modexp_identities:
  assumes "0 \<le> sint a" "1 < sint m"
  shows "modexp a 0 m = Some 1 \<and> (\<exists>r. modexp a 1 m = Some r \<and> sint r = sint a mod sint m)"
proof
  show "modexp a 0 m = Some 1"
    by (simp add: modexp_def modexp_loop.simps)
  from modexp_power [OF assms, of 1]
  show "\<exists>r. modexp a 1 m = Some r \<and> sint r = sint a mod sint m"
    by simp
qed

text \<open>
  The theorem at \<open>a = 12\<close>, \<open>m = 5\<close>.
\<close>

theorem modexp_identities_witness:
  "modexp 12 0 5 = Some 1 \<and> (\<exists>r. modexp 12 1 5 = Some r \<and> sint r = 2)"
  using modexp_identities [of 12 5] by simp

text \<open>
  Claim C9 lists reference values of \<open>isPrime\<close> and adds that 341 is caught by a base
  after 2. The values hold, but 341 is not a strong pseudoprime to base 2: with
  \<open>340 = 85 * 2 ^ 2\<close>, \<open>2 ^ 85 mod 341 = 32\<close> and \<open>32 ^ 2 mod 341 = 1\<close>, so base 2, the
  first base tried, already reports the witness.
\<close>

theorem isPrime_341_first_base:
  "isPrime 341 = Some False \<and> decompose (341 - 1) 0 = Some (85, 2) \<and>
   check_composite 2 85 341 2 = Some True"
  using isPrime_341 d_341 cc_341 by (intro conjI)

text \<open>
  Claim C9 as amended: \<open>isPrime\<close> is true at 17, 2, 7919 and 1000000007, false at 1
  and at the composites 341, 561, 645, 1105, 2465 and 41041; 341 is rejected at the
  first base, 2.
\<close>

theorem isPrime_reference_values:
  "isPrime 17 = Some True \<and> isPrime 2 = Some True \<and> isPrime 7919 = Some True \<and>
   isPrime 1000000007 = Some True \<and> isPrime 1 = Some False \<and>
   isPrime 341 = Some False \<and> isPrime 561 = Some False \<and> isPrime 645 = Some False \<and>
   isPrime 1105 = Some False \<and> isPrime 2465 = Some False \<and> isPrime 41041 = Some False \<and>
   bases_loop [2] 85 341 2 [] = ([2], Some False)"
proof -
  have two: "isPrime 2 = Some True"
    by (simp add: isPrime_def isPrime_run_def word_srem_2)
  have one: "isPrime 1 = Some False"
    by (simp add: isPrime_def isPrime_run_def word_sless_alt)
  have b: "bases_loop [2] 85 341 2 [] = ([2], Some False)"
    by (simp add: cc_341)
  show ?thesis
    using isPrime_17 two isPrime_7919 isPrime_1000000007 one isPrime_341 isPrime_561
      isPrime_645 isPrime_1105 isPrime_2465 isPrime_41041 b
    by (intro conjI)
qed

text \<open>
  Claim C10. The loop of \<open>modexp\<close> is entered at most 63 times, whatever the 64-bit
  exponent \<open>b\<close>; for \<open>b \<le> 0\<close> it is not entered and \<open>modexp\<close> returns 1. With a
  non-zero modulus \<open>modexp\<close> returns a value; with the modulus 0 and \<open>b > 0\<close> the first
  loop body divides by zero.
\<close>

theorem modexp_terminates:
  "modexp_iterations a b m \<le> 63 \<and>
   (sint b \<le> 0 \<longrightarrow> modexp_iterations a b m = 0 \<and> modexp a b m = Some 1) \<and>
   (m \<noteq> 0 \<longrightarrow> (\<exists>r. modexp a b m = Some r)) \<and>
   (m = 0 \<and> 0 < sint b \<longrightarrow> modexp_iterations a b m = 1 \<and> modexp a b m = None)"
proof (intro conjI impI)
  have "sint b < 2 ^ 63"
    using sint64_bounds [of b] by simp
  from modexp_loop_iterations [OF this, of 1 a m 0]
  show "modexp_iterations a b m \<le> 63"
    by (simp add: modexp_iterations_def)
next
  assume "sint b \<le> 0"
  then have "\<not> 0 <s b"
    by (simp add: word_sless_alt)
  then have "modexp_loop 1 a b m 0 = (0, Some 1)"
    by (subst modexp_loop.simps) simp
  then show "modexp_iterations a b m = 0" "modexp a b m = Some 1"
    by (simp_all add: modexp_iterations_def modexp_def)
next
  assume "m \<noteq> 0"
  then show "\<exists>r. modexp a b m = Some r"
    unfolding modexp_def by (rule modexp_loop_returns)
next
  assume a: "m = 0 \<and> 0 < sint b"
  then have "0 <s b"
    by (simp add: word_sless_alt)
  then have "modexp_loop 1 a b m 0 = (1, None)"
    using a by (subst modexp_loop.simps) (simp add: mulmod_def)
  then show "modexp_iterations a b m = 1" "modexp a b m = None"
    by (simp_all add: modexp_iterations_def modexp_def)
qed

text \<open>
  The theorem at the exponents \<open>- 7\<close> and \<open>2 ^ 63 - 1\<close>, and at the modulus 0.
\<close>

theorem modexp_terminates_witness:
  "modexp_iterations 3 (- 7) 10 = 0 \<and> modexp 3 (- 7) 10 = Some 1 \<and>
   modexp_iterations 3 9223372036854775807 10 \<le> 63 \<and>
   (\<exists>r. modexp 3 9223372036854775807 10 = Some r) \<and>
   modexp_iterations 3 4 0 = 1 \<and> modexp 3 4 0 = None"
  using modexp_terminates [of 3 "- 7" 10] modexp_terminates [of 3 9223372036854775807 10]
    modexp_terminates [of 3 4 0]
  by simp

end
